theory Spec2Isabelle
  imports Complex_Main "HOL-Library.AList"
begin

section \<open>JavaScript values shared by the models\<close>

text \<open>
  JSON documents as the route handlers and the summary service see them after
  \<^verbatim>\<open>JSON.parse\<close> / \<^verbatim>\<open>response.json()\<close>. Numbers are idealised as exact rationals.
  A string is the list of the bytes of its UTF-8 encoding. An object is the list of its own
  properties in insertion order. The JavaScript value \<^verbatim>\<open>undefined\<close> is \<open>None\<close> of
  \<open>json option\<close>.
\<close>

datatype json =
    JNull
  | JBool bool
  | JNum rat
  | JStr string
  | JArr "json list"
  | JObj "(string \<times> json) list"

text \<open>A thrown value: an \<^verbatim>\<open>Error\<close> instance with its message, or any other value.\<close>

datatype js_error = JsError string | NonError

text \<open>Truthiness, as \<^verbatim>\<open>!x\<close>, \<^verbatim>\<open>x && y\<close> and \<^verbatim>\<open>x || y\<close> test it.\<close>

fun truthy :: "json \<Rightarrow> bool" where
  "truthy JNull = False"
| "truthy (JBool b) = b"
| "truthy (JNum n) = (n \<noteq> 0)"
| "truthy (JStr s) = (s \<noteq> [])"
| "truthy (JArr xs) = True"
| "truthy (JObj fs) = True"

fun truthy_val :: "json option \<Rightarrow> bool" where
  "truthy_val None = False"
| "truthy_val (Some j) = truthy j"

text \<open>
  Property read \<^verbatim>\<open>v.k\<close> for the property names the sources use (none of them is a
  built-in property of strings, arrays, numbers or booleans): reading from \<^verbatim>\<open>null\<close>
  throws a TypeError, an object yields its property or \<^verbatim>\<open>undefined\<close>, every other
  value yields \<^verbatim>\<open>undefined\<close>.
\<close>

fun get_prop :: "json \<Rightarrow> string \<Rightarrow> js_error + json option" where
  "get_prop JNull k = Inl (JsError ''Cannot read properties of null'')"
| "get_prop (JObj fs) k = Inr (map_of fs k)"
| "get_prop v k = Inr None"

text \<open>
  \<^verbatim>\<open>String.prototype.trim\<close> removes the white space and line terminator code points from
  both ends of a string. \<open>white_space\<close> lists the UTF-8 encodings of these code points:
  U+0009 to U+000D, U+0020, U+00A0, U+1680, U+2000 to U+200A, U+2028, U+2029, U+202F,
  U+205F, U+3000 and U+FEFF.
\<close>

definition white_space :: "string list" where
  "white_space =
     [[CHR 0x09], [CHR 0x0A], [CHR 0x0B], [CHR 0x0C], [CHR 0x0D], [CHR 0x20],
      [CHR 0xC2, CHR 0xA0],
      [CHR 0xE1, CHR 0x9A, CHR 0x80],
      [CHR 0xE2, CHR 0x80, CHR 0x80], [CHR 0xE2, CHR 0x80, CHR 0x81],
      [CHR 0xE2, CHR 0x80, CHR 0x82], [CHR 0xE2, CHR 0x80, CHR 0x83],
      [CHR 0xE2, CHR 0x80, CHR 0x84], [CHR 0xE2, CHR 0x80, CHR 0x85],
      [CHR 0xE2, CHR 0x80, CHR 0x86], [CHR 0xE2, CHR 0x80, CHR 0x87],
      [CHR 0xE2, CHR 0x80, CHR 0x88], [CHR 0xE2, CHR 0x80, CHR 0x89],
      [CHR 0xE2, CHR 0x80, CHR 0x8A],
      [CHR 0xE2, CHR 0x80, CHR 0xA8], [CHR 0xE2, CHR 0x80, CHR 0xA9],
      [CHR 0xE2, CHR 0x80, CHR 0xAF],
      [CHR 0xE2, CHR 0x81, CHR 0x9F],
      [CHR 0xE3, CHR 0x80, CHR 0x80],
      [CHR 0xEF, CHR 0xBB, CHR 0xBF]]"

text \<open>
  The number of bytes of the token that the string starts with, 0 when it starts with none;
  \<open>strip\<close> removes tokens from the start for as long as there is one.
\<close>

definition token_length :: "string list \<Rightarrow> string \<Rightarrow> nat" where
  "token_length tokens s =
     (case find (\<lambda>w. take (length w) s = w) tokens of
        None \<Rightarrow> 0
      | Some w \<Rightarrow> length w)"

fun strip :: "string list \<Rightarrow> string \<Rightarrow> string" where
  "strip tokens [] = []"
| "strip tokens (c # cs) =
     (if token_length tokens (c # cs) = 0 then c # cs
      else strip tokens (drop (token_length tokens (c # cs) - 1) cs))"

definition trim :: "string \<Rightarrow> string" where
  "trim s = rev (strip (map rev white_space) (rev (strip white_space s)))"

text \<open>\<^verbatim>\<open>Array.prototype.join\<close> on strings.\<close>

fun join :: "string \<Rightarrow> string list \<Rightarrow> string" where
  "join sep [] = []"
| "join sep [x] = x"
| "join sep (x # y # ys) = x @ sep @ join sep (y # ys)"

section \<open>The summary service (src/services/summaryService.ts)\<close>

text \<open>The fields of a \<^verbatim>\<open>Node\<close> that the service and the summary endpoint read.\<close>

record node =
  node_id :: string
  node_name :: string
  node_type :: string

record GenerateSummaryParams =
  nodes :: "node list"
  mapId :: string
  isLastMap :: bool

text \<open>
  What \<^verbatim>\<open>fetch\<close> resolves to: \<^verbatim>\<open>ok\<close>, \<^verbatim>\<open>status\<close>, and the outcomes of the
  \<^verbatim>\<open>text()\<close> and \<^verbatim>\<open>json()\<close> promises (either may reject).
\<close>

record http_response =
  ok :: bool
  status :: nat
  text_body :: "js_error + string"
  json_body :: "js_error + json"

text \<open>
  The module state: the \<^verbatim>\<open>summaryCache\<close> map, and the log of request bodies
  \<^verbatim>\<open>{nodes, isLastMap}\<close> posted to \<^verbatim>\<open>/api/navigation/summary\<close>.
\<close>

record service_state =
  summaryCache :: "string \<rightharpoonup> string"
  requests :: "(node list \<times> bool) list"

definition initial_service :: service_state where
  "initial_service = \<lparr>summaryCache = Map.empty, requests = []\<rparr>"

definition cacheKey :: "GenerateSummaryParams \<Rightarrow> string" where
  "cacheKey p =
     mapId p @ ''_'' @ join ''-'' (map node_id (nodes p)) @ ''_''
       @ (if isLastMap p then ''final'' else ''intermediate'')"

text \<open>
  \<^verbatim>\<open>fetchSummary\<close> is asynchronous: it runs up to \<^verbatim>\<open>await fetch(...)\<close>, is suspended
  until the response is there, and then runs on (the further \<^verbatim>\<open>await\<close>s of the body
  lie between two steps that neither read nor write the module state). Other calls may run
  while it is suspended. Its first part is the length guard, the cache look-up and the
  posting of the request: it returns at once, or is left awaiting the response.
\<close>

datatype begin_result = Returned "string option" | Awaiting

definition fetchSummary_begin ::
  "GenerateSummaryParams \<Rightarrow> service_state \<Rightarrow> begin_result \<times> service_state" where
  "fetchSummary_begin p st =
     (if length (nodes p) < 2 then (Returned None, st)
      else
        (case summaryCache st (cacheKey p) of
           Some cached \<Rightarrow> (Returned (if cached \<noteq> [] then Some cached else None), st)
         | None \<Rightarrow> (Awaiting, st\<lparr>requests := requests st @ [(nodes p, isLastMap p)]\<rparr>)))"

text \<open>
  The rest of the \<^verbatim>\<open>try\<close> block, run when the \<^verbatim>\<open>fetch\<close> has settled. \<open>reply\<close> is
  what the \<^verbatim>\<open>fetch\<close> yields: \<open>Inl\<close> when it throws. The result is \<open>Inl\<close> when the
  block throws. \<open>st\<close> is the module state at that moment.
\<close>

definition fetchSummary_try ::
  "(js_error + http_response) \<Rightarrow> GenerateSummaryParams \<Rightarrow> service_state
     \<Rightarrow> (js_error + string option) \<times> service_state" where
  "fetchSummary_try reply p st =
     (case reply of
        Inl e \<Rightarrow> (Inl e, st)
      | Inr response \<Rightarrow>
          if \<not> ok response then (Inr None, st)
          else
            (case json_body response of
               Inl e \<Rightarrow> (Inl e, st)
             | Inr data \<Rightarrow>
                 (case get_prop data ''success'' of
                    Inl e \<Rightarrow> (Inl e, st)
                  | Inr success \<Rightarrow>
                      (case get_prop data ''summary'' of
                         Inl e \<Rightarrow> (Inl e, st)
                       | Inr (Some (JStr summary)) \<Rightarrow>
                           if truthy_val success \<and> trim summary \<noteq> [] then
                             (let normalizedSummary = trim summary in
                              (Inr (Some normalizedSummary),
                               st\<lparr>summaryCache :=
                                    (summaryCache st)(cacheKey p \<mapsto> normalizedSummary)\<rparr>))
                           else (Inr None, st)
                       | Inr _ \<Rightarrow> (Inr None, st)))))"

text \<open>
  The second part of a call that was left awaiting: the rest of the \<^verbatim>\<open>try\<close> block, whose
  \<^verbatim>\<open>catch\<close> turns every thrown value into \<^verbatim>\<open>null\<close>. The first component is \<open>Inr r\<close>
  when the promise resolves to \<open>r\<close> and \<open>Inl e\<close> when it rejects.
\<close>

definition fetchSummary_resume ::
  "(js_error + http_response) \<Rightarrow> GenerateSummaryParams \<Rightarrow> service_state
     \<Rightarrow> (js_error + string option) \<times> service_state" where
  "fetchSummary_resume reply p st =
     (case fetchSummary_try reply p st of
        (Inl err, st') \<Rightarrow> (Inr None, st')
      | (Inr r, st') \<Rightarrow> (Inr r, st'))"

text \<open>A whole call of \<^verbatim>\<open>fetchSummary\<close> during which nothing else runs.\<close>

definition fetchSummary ::
  "(js_error + http_response) \<Rightarrow> GenerateSummaryParams \<Rightarrow> service_state
     \<Rightarrow> (js_error + string option) \<times> service_state" where
  "fetchSummary reply p st =
     (case fetchSummary_begin p st of
        (Returned r, st') \<Rightarrow> (Inr r, st')
      | (Awaiting, st') \<Rightarrow> fetchSummary_resume reply p st')"





text \<open>
  The collaborator failures of one call: \<^verbatim>\<open>fetch\<close> throws, the response is not OK,
  reading the JSON body throws, or the payload is unsuccessful or has no non-blank
  summary string.
\<close>

definition payload_ok :: "json \<Rightarrow> bool" where
  "payload_ok data =
     (case (get_prop data ''success'', get_prop data ''summary'') of
        (Inr success, Inr (Some (JStr summary))) \<Rightarrow> truthy_val success \<and> trim summary \<noteq> []
      | _ \<Rightarrow> False)"

definition collaborator_failed :: "(js_error + http_response) \<Rightarrow> bool" where
  "collaborator_failed reply =
     (case reply of
        Inl e \<Rightarrow> True
      | Inr response \<Rightarrow>
          \<not> ok response \<or>
          (case json_body response of Inl e \<Rightarrow> True | Inr data \<Rightarrow> \<not> payload_ok data))"


section \<open>The summary endpoint (POST /api/navigation/summary)\<close>

text \<open>A \<^verbatim>\<open>NextResponse.json(body, {status})\<close>; the status is 200 when none is given.\<close>

record api_response =
  status_code :: nat
  body :: json

definition error_response :: "nat \<Rightarrow> string \<Rightarrow> api_response" where
  "error_response st msg =
     \<lparr>status_code = st, body = JObj [(''success'', JBool False), (''error'', JStr msg)]\<rparr>"

text \<open>\<^verbatim>\<open>!apiKey\<close> for an environment variable: unset, or set to the empty string.\<close>

fun env_missing :: "string option \<Rightarrow> bool" where
  "env_missing None = True"
| "env_missing (Some v) = (v = [])"

fun isArray :: "json option \<Rightarrow> bool" where
  "isArray (Some (JArr xs)) = True"
| "isArray v = False"

fun array_items :: "json option \<Rightarrow> json list" where
  "array_items (Some (JArr xs)) = xs"
| "array_items v = []"

text \<open>
  The \<^verbatim>\<open>nodes.map\<close> that prepares the prompt: per node its \<^verbatim>\<open>name\<close> and the
  \<^verbatim>\<open>typeInfo\<close> text. Reading \<^verbatim>\<open>node.type\<close> of a \<^verbatim>\<open>null\<close> node throws. The
  formatting of the pairs into the prompt text is not modelled: the reply of the language
  model is a parameter of the handler.
\<close>

definition typeInfo :: "json option \<Rightarrow> string" where
  "typeInfo ty =
     (let typeInfo0 =
            (if ty = Some (JStr ''GATEWAY'') then ''(Transition/Connection Point)'' else [])
      in if ty = Some (JStr ''ROOM'') then ''(Room/Label)'' else typeInfo0)"

fun nodesList :: "json list \<Rightarrow> js_error + (json option \<times> string) list" where
  "nodesList [] = Inr []"
| "nodesList (n # ns) =
     (case get_prop n ''type'' of
        Inl e \<Rightarrow> Inl e
      | Inr ty \<Rightarrow>
          (case get_prop n ''name'' of
             Inl e \<Rightarrow> Inl e
           | Inr nm \<Rightarrow>
               (case nodesList ns of
                  Inl e \<Rightarrow> Inl e
                | Inr rest \<Rightarrow> Inr ((nm, typeInfo ty) # rest))))"

text \<open>
  The \<^verbatim>\<open>try\<close> block after the API-key guard. \<open>reqJson\<close> is the outcome of
  \<^verbatim>\<open>req.json()\<close>, \<open>modelReply\<close> the outcome of \<^verbatim>\<open>generateContent\<close> followed by
  \<^verbatim>\<open>response.text()\<close>.
\<close>

definition summary_POST_try ::
  "(js_error + json) \<Rightarrow> (js_error + string) \<Rightarrow> js_error + api_response" where
  "summary_POST_try reqJson modelReply =
     (case reqJson of
        Inl e \<Rightarrow> Inl e
      | Inr b \<Rightarrow>
          (case get_prop b ''nodes'' of
             Inl e \<Rightarrow> Inl e
           | Inr nodes_field \<Rightarrow>
               if \<not> truthy_val nodes_field \<or> \<not> isArray nodes_field
                  \<or> length (array_items nodes_field) < 2
               then Inr (error_response 400 ''Invalid path nodes provided'')
               else
                 (case nodesList (array_items nodes_field) of
                    Inl e \<Rightarrow> Inl e
                  | Inr prompt_nodes \<Rightarrow>
                      (case modelReply of
                         Inl e \<Rightarrow> Inl e
                       | Inr text \<Rightarrow>
                           (let summary = trim text in
                            if summary = [] then
                              Inr (error_response 502 ''Empty summary response from model'')
                            else
                              Inr \<lparr>status_code = 200,
                                   body = JObj [(''success'', JBool True),
                                                (''summary'', JStr summary)]\<rparr>)))))"

definition summary_POST ::
  "string option \<Rightarrow> (js_error + json) \<Rightarrow> (js_error + string) \<Rightarrow> api_response" where
  "summary_POST apiKey reqJson modelReply =
     (if env_missing apiKey then error_response 500 ''GEMINI_API_KEY is not set''
      else
        (case summary_POST_try reqJson modelReply of
           Inl err \<Rightarrow> error_response 500 ''Failed to generate summary''
         | Inr r \<Rightarrow> r))"

text \<open>
  The requests the length/array guard is written for: the \<^verbatim>\<open>nodes\<close> field is missing,
  is not an array, or has fewer than two elements.
\<close>

definition nodes_invalid :: "json \<Rightarrow> bool" where
  "nodes_invalid b =
     (case get_prop b ''nodes'' of
        Inl e \<Rightarrow> True
      | Inr None \<Rightarrow> True
      | Inr (Some (JArr xs)) \<Rightarrow> length xs < 2
      | Inr (Some v) \<Rightarrow> True)"

section \<open>The map digitization endpoint (POST /api/admin/analyze-map)\<close>

text \<open>
  A JavaScript number produced by the conversion: an exact rational, or \<open>Other\<close> for the
  number that the coercion rules give when an operand of \<^verbatim>\<open>+\<close> is not a number (those
  rules are not modelled).
\<close>

datatype js_number = Num rat | Other

record processed_node =
  label :: "json option"
  x_coord :: js_number
  y_coord :: js_number

text \<open>\<^verbatim>\<open>(a + b) / 2\<close> and \<^verbatim>\<open>c / 10\<close>.\<close>

fun center_1000 :: "json \<Rightarrow> json \<Rightarrow> js_number" where
  "center_1000 (JNum a) (JNum b) = Num ((a + b) / 2)"
| "center_1000 a b = Other"

fun to_percent :: "js_number \<Rightarrow> js_number" where
  "to_percent (Num c) = Num (c / 10)"
| "to_percent Other = Other"

text \<open>
  \<^verbatim>\<open>parseFloat(v.toFixed(2))\<close>: \<^verbatim>\<open>toFixed\<close> takes the integer \<open>n\<close> with \<open>n / 100\<close>
  closest to the magnitude, the larger one on a tie, keeps the sign, and leaves a magnitude
  of \<open>10\<^sup>2\<^sup>1\<close> or more as it is.
\<close>

fun toFixed2 :: "js_number \<Rightarrow> js_number" where
  "toFixed2 (Num v) =
     (if 10 ^ 21 \<le> \<bar>v\<bar> then Num v
      else Num (sgn v * of_int \<lfloor>\<bar>v\<bar> * 100 + 1 / 2\<rfloor> / 100))"
| "toFixed2 Other = Other"

text \<open>The callback of \<^verbatim>\<open>rawNodes.map\<close>; it throws when the item is \<^verbatim>\<open>null\<close>.\<close>

definition process_item :: "json \<Rightarrow> js_error + processed_node" where
  "process_item item =
     (case get_prop item ''box_2d'' of
        Inl e \<Rightarrow> Inl e
      | Inr box_2d \<Rightarrow>
          (let (x0, y0) =
                 (if truthy_val box_2d \<and> isArray box_2d \<and> length (array_items box_2d) = 4
                  then
                    (case array_items box_2d of
                       [ymin, xmin, ymax, xmax] \<Rightarrow>
                         (let centerX_1000 = center_1000 xmin xmax;
                              centerY_1000 = center_1000 ymin ymax
                          in (to_percent centerX_1000, to_percent centerY_1000))
                     | _ \<Rightarrow> (Num 50, Num 50))
                  else (Num 50, Num 50))
           in
             (case get_prop item ''label'' of
                Inl e \<Rightarrow> Inl e
              | Inr lbl \<Rightarrow> Inr \<lparr>label = lbl, x_coord = toFixed2 x0, y_coord = toFixed2 y0\<rparr>)))"

fun map_items :: "json list \<Rightarrow> js_error + processed_node list" where
  "map_items [] = Inr []"
| "map_items (item # items) =
     (case process_item item of
        Inl e \<Rightarrow> Inl e
      | Inr n \<Rightarrow>
          (case map_items items of
             Inl e \<Rightarrow> Inl e
           | Inr ns \<Rightarrow> Inr (n # ns)))"

text \<open>\<^verbatim>\<open>rawNodes.map(...)\<close>: only an array has \<^verbatim>\<open>map\<close>.\<close>

fun processedNodes :: "json \<Rightarrow> js_error + processed_node list" where
  "processedNodes (JArr items) = map_items items"
| "processedNodes v = Inl (JsError ''rawNodes.map is not a function'')"

text \<open>
  The end of the handler, from the parsed reply on: the success response, or the
  \<^verbatim>\<open>catch\<close> block's failure response (a TypeError has no \<^verbatim>\<open>status\<close>, so 500).
\<close>

datatype analyze_response =
    AnalyzeSuccess "processed_node list"
  | AnalyzeFailure nat string

definition analyze_respond :: "json \<Rightarrow> analyze_response" where
  "analyze_respond rawNodes =
     (case processedNodes rawNodes of
        Inl err \<Rightarrow> AnalyzeFailure 500 ''Failed to analyze map''
      | Inr ns \<Rightarrow> AnalyzeSuccess ns)"

text \<open>An item has a 4-element \<^verbatim>\<open>box_2d\<close> array: the test the callback makes.\<close>

definition has_box :: "json \<Rightarrow> bool" where
  "has_box item =
     (case get_prop item ''box_2d'' of
        Inr (Some (JArr [ymin, xmin, ymax, xmax])) \<Rightarrow> True
      | _ \<Rightarrow> False)"

section \<open>The map document endpoint (src/app/api/maps/[id]/route.ts)\<close>

subsection \<open>The document store\<close>

text \<open>
  The two Firestore collections the handlers touch, each a list of documents
  (storage-generated document id, document data) in the order a query returns them.
  \<open>faults\<close> says which operations throw instead of completing; an operation that throws
  leaves the store as it was.
\<close>

type_synonym document = "string \<times> (string \<times> json) list"

record firestore =
  maps_collection :: "document list"
  map_images :: "document list"

datatype db_op =
    MapsWhereId string
  | MapsDocGet string
  | MapsDocDelete string
  | ImagesDocDelete string

type_synonym faults = "db_op \<Rightarrow> js_error option"

text \<open>\<^verbatim>\<open>mapsCollection.where("id", "==", id).get()\<close>: the documents whose \<^verbatim>\<open>id\<close> field is the string.\<close>

definition where_id :: "firestore \<Rightarrow> string \<Rightarrow> document list" where
  "where_id db i = filter (\<lambda>d. map_of (snd d) ''id'' = Some (JStr i)) (maps_collection db)"

text \<open>\<^verbatim>\<open>mapsCollection.doc(id).get()\<close>: the data of the document with that document id, if it exists.\<close>

definition doc_get :: "firestore \<Rightarrow> string \<Rightarrow> (string \<times> json) list option" where
  "doc_get db i = map_of (maps_collection db) i"

text \<open>\<^verbatim>\<open>{ ...data, id: data.id || doc.id }\<close>.\<close>

definition with_id :: "(string \<times> json) list \<Rightarrow> string \<Rightarrow> json" where
  "with_id data doc_id =
     JObj (AList.update ''id''
            (case map_of data ''id'' of
               Some v \<Rightarrow> if truthy v then v else JStr doc_id
             | None \<Rightarrow> JStr doc_id)
            data)"

definition found_response :: "(string \<times> json) list \<Rightarrow> string \<Rightarrow> api_response" where
  "found_response data doc_id =
     \<lparr>status_code = 200,
      body = JObj [(''success'', JBool True), (''data'', with_id data doc_id)]\<rparr>"

definition not_found_response :: "string \<Rightarrow> api_response" where
  "not_found_response i = error_response 404 (''Map '' @ [CHR 0x27] @ i @ [CHR 0x27] @ '' not found'')"

text \<open>\<^verbatim>\<open>error instanceof Error ? error.message : fallback\<close>.\<close>

fun error_message :: "js_error \<Rightarrow> string \<Rightarrow> string" where
  "error_message (JsError msg) fallback = msg"
| "error_message NonError fallback = fallback"

subsection \<open>GET\<close>

text \<open>
  The \<^verbatim>\<open>try\<close> block of \<^verbatim>\<open>GET\<close>, with the store operations it issued, in order.
\<close>

definition maps_GET_try ::
  "faults \<Rightarrow> firestore \<Rightarrow> string \<Rightarrow> (js_error + api_response) \<times> db_op list" where
  "maps_GET_try fl db i =
     (case fl (MapsWhereId i) of
        Some e \<Rightarrow> (Inl e, [MapsWhereId i])
      | None \<Rightarrow>
          (case where_id db i of
             (doc_id, data) # others \<Rightarrow>
               if \<not> truthy (JObj data) then
                 (Inr (error_response 500 ''Map data is missing''), [MapsWhereId i])
               else (Inr (found_response data doc_id), [MapsWhereId i])
           | [] \<Rightarrow>
               (case fl (MapsDocGet i) of
                  Some e \<Rightarrow> (Inl e, [MapsWhereId i, MapsDocGet i])
                | None \<Rightarrow>
                    (case doc_get db i of
                       None \<Rightarrow> (Inr (not_found_response i), [MapsWhereId i, MapsDocGet i])
                     | Some data \<Rightarrow>
                         if \<not> truthy (JObj data) then
                           (Inr (error_response 500 ''Map data is missing''),
                            [MapsWhereId i, MapsDocGet i])
                         else
                           (Inr (found_response data i), [MapsWhereId i, MapsDocGet i])))))"

definition maps_GET :: "faults \<Rightarrow> firestore \<Rightarrow> string \<Rightarrow> api_response \<times> db_op list" where
  "maps_GET fl db i =
     (case maps_GET_try fl db i of
        (Inl err, ops) \<Rightarrow> (error_response 500 (error_message err ''Failed to fetch map''), ops)
      | (Inr r, ops) \<Rightarrow> (r, ops))"

subsection \<open>Image URLs (src/lib/imageUtils.ts)\<close>

definition startsWith :: "string \<Rightarrow> string \<Rightarrow> bool" where
  "startsWith s pre = (take (length pre) s = pre)"

definition isDatabaseImage :: "string \<Rightarrow> bool" where
  "isDatabaseImage imageUrl = startsWith imageUrl ''/api/images/''"

text \<open>\<^verbatim>\<open>s.replace(pat, rep)\<close> for a non-empty string pattern: the first occurrence only.\<close>

fun replace_first :: "string \<Rightarrow> string \<Rightarrow> string \<Rightarrow> string" where
  "replace_first pat rep [] = []"
| "replace_first pat rep (c # cs) =
     (if startsWith (c # cs) pat then rep @ drop (length pat) (c # cs)
      else c # replace_first pat rep cs)"

definition getImageIdFromUrl :: "string \<Rightarrow> string option" where
  "getImageIdFromUrl imageUrl =
     (if \<not> isDatabaseImage imageUrl then None
      else Some (replace_first ''/api/images/'' [] imageUrl))"

subsection \<open>DELETE\<close>

datatype console_entry =
    LogDeletedImage string
  | ErrorDeleteImage string js_error
  | ErrorDELETE js_error

text \<open>What a run of the handler leaves behind: the store, the console, the operations issued.\<close>

record effects =
  store :: firestore
  console :: "console_entry list"
  issued :: "db_op list"

definition issue :: "db_op \<Rightarrow> effects \<Rightarrow> effects" where
  "issue op eff = eff\<lparr>issued := issued eff @ [op]\<rparr>"

text \<open>
  The look-up at the start of \<^verbatim>\<open>DELETE\<close>: the document reference and data found by the
  \<^verbatim>\<open>id\<close> field, else by document id; \<open>Inr None\<close> when neither exists.
\<close>

definition delete_lookup ::
  "faults \<Rightarrow> string \<Rightarrow> effects
     \<Rightarrow> (js_error + (string \<times> (string \<times> json) list) option) \<times> effects" where
  "delete_lookup fl i eff =
     (let eff1 = issue (MapsWhereId i) eff in
      case fl (MapsWhereId i) of
        Some e \<Rightarrow> (Inl e, eff1)
      | None \<Rightarrow>
          (case where_id (store eff1) i of
             (doc_id, data) # others \<Rightarrow> (Inr (Some (doc_id, data)), eff1)
           | [] \<Rightarrow>
               (let eff2 = issue (MapsDocGet i) eff1 in
                case fl (MapsDocGet i) of
                  Some e \<Rightarrow> (Inl e, eff2)
                | None \<Rightarrow>
                    (case doc_get (store eff2) i of
                       None \<Rightarrow> (Inr None, eff2)
                     | Some data \<Rightarrow> (Inr (Some (i, data)), eff2)))))"

text \<open>
  The block that deletes a database-stored image. Calling \<^verbatim>\<open>startsWith\<close> on a truthy
  \<^verbatim>\<open>imageUrl\<close> that is not a string throws outside the inner \<^verbatim>\<open>try\<close>; a failing
  delete of the image document is caught inside it.
\<close>

definition delete_image :: "faults \<Rightarrow> (string \<times> json) list \<Rightarrow> effects \<Rightarrow> js_error + effects" where
  "delete_image fl mapData eff =
     (case map_of mapData ''imageUrl'' of
        None \<Rightarrow> Inr eff
      | Some v \<Rightarrow>
          if \<not> truthy v then Inr eff
          else
            (case v of
               JStr imageUrl \<Rightarrow>
                 if \<not> isDatabaseImage imageUrl then Inr eff
                 else
                   (case getImageIdFromUrl imageUrl of
                      None \<Rightarrow> Inr eff
                    | Some imageId \<Rightarrow>
                        if imageId = [] then Inr eff
                        else
                          (let eff1 = issue (ImagesDocDelete imageId) eff in
                           case fl (ImagesDocDelete imageId) of
                             Some imageError \<Rightarrow>
                               Inr (eff1\<lparr>console := console eff1 @ [ErrorDeleteImage imageId imageError]\<rparr>)
                           | None \<Rightarrow>
                               Inr (eff1\<lparr>store := (store eff1)\<lparr>map_images :=
                                              AList.delete imageId (map_images (store eff1))\<rparr>,
                                         console := console eff1 @ [LogDeletedImage imageId]\<rparr>)))
             | _ \<Rightarrow> Inl (JsError ''mapData.imageUrl.startsWith is not a function'')))"

definition maps_DELETE_try ::
  "faults \<Rightarrow> string \<Rightarrow> effects \<Rightarrow> (js_error + api_response) \<times> effects" where
  "maps_DELETE_try fl i eff =
     (case delete_lookup fl i eff of
        (Inl e, eff1) \<Rightarrow> (Inl e, eff1)
      | (Inr None, eff1) \<Rightarrow> (Inr (not_found_response i), eff1)
      | (Inr (Some (docRef, mapData)), eff1) \<Rightarrow>
          (case delete_image fl mapData eff1 of
             Inl e \<Rightarrow> (Inl e, eff1)
           | Inr eff2 \<Rightarrow>
               (let eff3 = issue (MapsDocDelete docRef) eff2 in
                case fl (MapsDocDelete docRef) of
                  Some e \<Rightarrow> (Inl e, eff3)
                | None \<Rightarrow>
                    (Inr \<lparr>status_code = 200,
                          body = JObj [(''success'', JBool True),
                                       (''message'',
                                        JStr (''Map '' @ [CHR 0x27] @ i @ [CHR 0x27]
                                              @ '' deleted successfully''))]\<rparr>,
                     eff3\<lparr>store := (store eff3)\<lparr>maps_collection :=
                                    AList.delete docRef (maps_collection (store eff3))\<rparr>\<rparr>))))"

definition maps_DELETE :: "faults \<Rightarrow> string \<Rightarrow> effects \<Rightarrow> api_response \<times> effects" where
  "maps_DELETE fl i eff =
     (case maps_DELETE_try fl i eff of
        (Inl err, eff') \<Rightarrow>
          (error_response 500 (error_message err ''Failed to delete map''),
           eff'\<lparr>console := console eff' @ [ErrorDELETE err]\<rparr>)
      | (Inr r, eff') \<Rightarrow> (r, eff'))"

definition fresh :: "firestore \<Rightarrow> effects" where
  "fresh db = \<lparr>store = db, console = [], issued = []\<rparr>"

section \<open>The single-floor pathfinder\<close>

text \<open>
  Modelled from the spec: the module \<^verbatim>\<open>@/lib/pathfinder\<close>, which the navigation page
  imports and whose source is missing. Every definition of this section follows the design
  document (sections 3, 4.1, 4.2 and 7): the error taxonomy, the Point, the Graph Model and
  the single-floor pathfinder.
\<close>

datatype nav_error =
    UnknownPoint
  | InvalidGraph
  | NoPath
  | NoRouteAcrossFloors
  | InvalidTransition

datatype point_kind = ORDINARY | TRANSITION

record point =
  point_id :: string
  point_name :: string
  kind :: point_kind
  position :: "real \<times> real"
  link :: "(string \<times> string) option"

text \<open>
  Modelled from the spec: the Graph Model of the missing pathfinder module, one floor's
  ordered points and the adjacency mapping from a point id to the point ids connected to it.
\<close>

record graph =
  points :: "point list"
  adjacency :: "(string \<times> string list) list"

definition point_ids :: "graph \<Rightarrow> string list" where
  "point_ids G = map point_id (points G)"

definition adjacent :: "graph \<Rightarrow> string \<Rightarrow> string list" where
  "adjacent G u = (case map_of (adjacency G) u of None \<Rightarrow> [] | Some vs \<Rightarrow> vs)"

text \<open>
  Modelled from the spec: \<open>neighbors(pointId)\<close> of the missing Graph Model, failing with
  \<open>UnknownPoint\<close> when the point is absent; \<open>adjacent\<close> is its result on a point of the graph.
\<close>

definition neighbors :: "graph \<Rightarrow> string \<Rightarrow> nav_error + string list" where
  "neighbors G u = (if u \<in> set (point_ids G) then Inr (adjacent G u) else Inl UnknownPoint)"

definition position_of :: "graph \<Rightarrow> string \<Rightarrow> real \<times> real" where
  "position_of G u =
     (case find (\<lambda>p. point_id p = u) (points G) of
        None \<Rightarrow> (0, 0)
      | Some p \<Rightarrow> position p)"

text \<open>
  Modelled from the spec: \<open>distance(a, b)\<close> of the missing Graph Model, the Euclidean
  distance between the positions of two points, which is the weight of the connection
  between them. Distances are real numbers.
\<close>

definition distance :: "graph \<Rightarrow> string \<Rightarrow> string \<Rightarrow> real" where
  "distance G a b =
     (case (position_of G a, position_of G b) of
        ((xa, ya), (xb, yb)) \<Rightarrow> sqrt ((xa - xb)\<^sup>2 + (ya - yb)\<^sup>2))"

text \<open>
  Modelled from the spec: the construction of the missing Graph Model, failing with
  \<open>InvalidGraph\<close> when a connection references an absent point id or a point id is
  duplicated.
\<close>

definition graph_model :: "point list \<Rightarrow> (string \<times> string list) list \<Rightarrow> nav_error + graph" where
  "graph_model ps adj =
     (if distinct (map point_id ps)
         \<and> list_all (\<lambda>(u, vs). u \<in> set (map point_id ps)
                                \<and> list_all (\<lambda>v. v \<in> set (map point_id ps)) vs) adj
      then Inr \<lparr>points = ps, adjacency = adj\<rparr>
      else Inl InvalidGraph)"

text \<open>
  Modelled from the spec: the paths that the missing pathfinder searches. A path of the
  graph is a non-empty sequence of points of the graph in which each point is connected to
  the next; its total distance is the sum of the distances of consecutive points.
\<close>

fun is_path :: "graph \<Rightarrow> string list \<Rightarrow> bool" where
  "is_path G [] = False"
| "is_path G [v] = (v \<in> set (point_ids G))"
| "is_path G (u # v # vs) =
     (u \<in> set (point_ids G) \<and> v \<in> set (adjacent G u) \<and> is_path G (v # vs))"

definition path_between :: "graph \<Rightarrow> string \<Rightarrow> string list \<Rightarrow> string \<Rightarrow> bool" where
  "path_between G a p b = (is_path G p \<and> hd p = a \<and> last p = b)"

fun path_length :: "graph \<Rightarrow> string list \<Rightarrow> real" where
  "path_length G [] = 0"
| "path_length G [v] = 0"
| "path_length G (u # v # vs) = distance G u v + path_length G (v # vs)"

text \<open>
  Modelled from the spec: the search of the missing pathfinder, Dijkstra's single-source
  algorithm. The tentative table gives, for each point reached so far, the tentative
  distance and the path that achieves it. The next point is the unvisited one of least
  tentative distance, the earliest in insertion order on a tie; its connections to
  unvisited points are relaxed, a strictly smaller distance replacing an entry.
\<close>

type_synonym tentative = "string \<rightharpoonup> real \<times> string list"

fun pick :: "tentative \<Rightarrow> string list \<Rightarrow> string option" where
  "pick T [] = None"
| "pick T (v # vs) =
     (case T v of
        None \<Rightarrow> pick T vs
      | Some (d, p) \<Rightarrow>
          (case pick T vs of
             None \<Rightarrow> Some v
           | Some u \<Rightarrow>
               (case T u of
                  None \<Rightarrow> Some v
                | Some (du, pu) \<Rightarrow> if du < d then Some u else Some v)))"

definition relax :: "graph \<Rightarrow> string \<Rightarrow> real \<Rightarrow> string list \<Rightarrow> string \<Rightarrow> tentative \<Rightarrow> tentative" where
  "relax G u du pu v T =
     (let alt = du + distance G u v in
      case T v of
        None \<Rightarrow> T(v \<mapsto> (alt, pu @ [v]))
      | Some (dv, pv) \<Rightarrow> if alt < dv then T(v \<mapsto> (alt, pu @ [v])) else T)"

lemma pick_member: "pick T vs = Some u \<Longrightarrow> u \<in> set vs"
  by (induction vs arbitrary: u) (auto split: option.splits if_splits)

function dijkstra :: "graph \<Rightarrow> tentative \<Rightarrow> string list \<Rightarrow> tentative" where
  "dijkstra G T unvisited =
     (case pick T unvisited of
        None \<Rightarrow> T
      | Some u \<Rightarrow>
          (case T u of
             None \<Rightarrow> T
           | Some (du, pu) \<Rightarrow>
               (let rest = removeAll u unvisited in
                dijkstra G
                  (fold (relax G u du pu) (filter (\<lambda>v. v \<in> set rest) (adjacent G u)) T)
                  rest)))"
  by pat_completeness auto
termination
proof (relation "measure (\<lambda>(G, T, unvisited). length unvisited)")
  show "wf (measure (\<lambda>(G, T, unvisited). length unvisited))"
    by simp
next
  fix G :: graph and T :: tentative and unvisited :: "string list"
    and u :: string and rest :: "string list"
  assume "pick T unvisited = Some u" and "rest = removeAll u unvisited"
  then have "length rest < length unvisited"
    using pick_member [of T unvisited u] by (simp add: length_removeAll_less)
  then show "\<And>du pu y. ((G, fold (relax G u du pu) (filter (\<lambda>v. v \<in> set rest) (adjacent G u)) T, rest),
                    (G, T, unvisited)) \<in> measure (\<lambda>(G, T, unvisited). length unvisited)"
    by simp
qed

text \<open>
  Modelled from the spec: \<open>shortestPath(graph, startId, endId)\<close> of the missing pathfinder,
  the path and its total distance, \<open>UnknownPoint\<close> when an id is absent, \<open>NoPath\<close> when the
  end is not reached.
\<close>

definition shortestPath :: "graph \<Rightarrow> string \<Rightarrow> string \<Rightarrow> nav_error + string list \<times> real" where
  "shortestPath G startId endId =
     (if startId \<notin> set (point_ids G) \<or> endId \<notin> set (point_ids G) then Inl UnknownPoint
      else
        (case dijkstra G [startId \<mapsto> (0, [startId])] (point_ids G) endId of
           None \<Rightarrow> Inl NoPath
         | Some (d, p) \<Rightarrow> Inr (p, d)))"

text \<open>
  What holds of the tentative table \<open>T\<close> and the unvisited points \<open>U\<close> at every round of the
  search from \<open>s\<close>: each entry is a path of the graph from \<open>s\<close> with its total distance;
  the unvisited points are points of the graph; the entry of a visited point is not longer than any path to it; every connection out of
  a visited point has been relaxed; every visited point has an entry.
\<close>

definition dijkstra_inv :: "graph \<Rightarrow> string \<Rightarrow> tentative \<Rightarrow> string list \<Rightarrow> bool" where
  "dijkstra_inv G s T U =
     (T s = Some (0, [s])
      \<and> set U \<subseteq> set (point_ids G)
      \<and> (s \<in> set U \<longrightarrow> (\<forall>v. T v \<noteq> None \<longrightarrow> v = s))
      \<and> (\<forall>v d p. T v = Some (d, p) \<longrightarrow> path_between G s p v \<and> path_length G p = d)
      \<and> (\<forall>v d p. T v = Some (d, p) \<longrightarrow> v \<notin> set U \<longrightarrow>
            (\<forall>q. path_between G s q v \<longrightarrow> d \<le> path_length G q))
      \<and> (\<forall>u du pu v. u \<notin> set U \<longrightarrow> T u = Some (du, pu) \<longrightarrow> v \<in> set (adjacent G u) \<longrightarrow>
            v \<in> set (point_ids G) \<longrightarrow> (\<exists>dv pv. T v = Some (dv, pv) \<and> dv \<le> du + distance G u v))
      \<and> (\<forall>v \<in> set (point_ids G). v \<notin> set U \<longrightarrow> T v \<noteq> None))"

section \<open>The navigation session\<close>

text \<open>
  Modelled from the spec: the Navigation Session of the component
  \<^verbatim>\<open>@/components/IndoorNavigation\<close>, which the navigation page imports and whose source is
  missing. The definitions of this section follow the design document (sections 3 and
  4.4). A Route is the ordered list of its Segments.
\<close>

datatype lifecycle =
    AWAITING_START
  | ON_SEGMENT
  | AWAITING_TRANSITION
  | COMPLETED
  | ABORTED

record segment =
  floorId :: string
  pointIds :: "string list"
  cumulativeDistance :: real

record session =
  route :: "segment list"
  segmentIndex :: nat
  pointIndex :: nat
  state :: lifecycle

text \<open>
  Modelled from the spec: a freshly built session of the missing Navigation Session,
  nothing consumed yet.
\<close>

definition newSession :: "segment list \<Rightarrow> session" where
  "newSession r = \<lparr>route = r, segmentIndex = 0, pointIndex = 0, state = AWAITING_START\<rparr>"

text \<open>
  Modelled from the spec: the accessors \<open>currentSegment\<close>, \<open>isFinalSegment\<close> and \<open>progress\<close>
  of the missing Navigation Session.
\<close>

definition currentSegment :: "session \<Rightarrow> segment option" where
  "currentSegment s =
     (if segmentIndex s < length (route s) then Some (route s ! segmentIndex s) else None)"

definition isFinalSegment :: "session \<Rightarrow> bool" where
  "isFinalSegment s = (segmentIndex s + 1 = length (route s))"

definition progress :: "session \<Rightarrow> nat \<times> nat \<times> nat" where
  "progress s = (segmentIndex s, pointIndex s, length (route s))"

text \<open>
  Modelled from the spec: the operations of the missing Navigation Session. Each returns
  the error, if any, and the session afterwards; a failed operation returns the session as
  it was.
  \<open>startPlayback\<close> is the step from \<open>AWAITING_START\<close> to \<open>ON_SEGMENT\<close>. \<open>advancePoint\<close> is the
  progress of the presentation along the current segment: reaching the last point of a
  segment that is not the final one gives \<open>AWAITING_TRANSITION\<close>, reaching the last point
  of the last segment gives \<open>COMPLETED\<close>. \<open>advanceToNextSegment\<close> is valid only in
  \<open>AWAITING_TRANSITION\<close> and moves to \<open>ON_SEGMENT\<close> on the next segment at point index 0.
  \<open>reset\<close> discards all progress: the session is as freshly built on the same Route.
\<close>

definition startPlayback :: "session \<Rightarrow> nav_error option \<times> session" where
  "startPlayback s =
     (if state s = AWAITING_START \<and> route s \<noteq> []
      then (None, s\<lparr>segmentIndex := 0, pointIndex := 0, state := ON_SEGMENT\<rparr>)
      else (Some InvalidTransition, s))"

definition advancePoint :: "session \<Rightarrow> nav_error option \<times> session" where
  "advancePoint s =
     (if state s \<noteq> ON_SEGMENT then (Some InvalidTransition, s)
      else
        (case currentSegment s of
           None \<Rightarrow> (Some InvalidTransition, s)
         | Some seg \<Rightarrow>
             (let n = length (pointIds seg);
                  i = (if pointIndex s + 1 < n then pointIndex s + 1 else pointIndex s)
              in if i + 1 < n then (None, s\<lparr>pointIndex := i\<rparr>)
                 else if isFinalSegment s then (None, s\<lparr>pointIndex := i, state := COMPLETED\<rparr>)
                 else (None, s\<lparr>pointIndex := i, state := AWAITING_TRANSITION\<rparr>))))"

definition advanceToNextSegment :: "session \<Rightarrow> nav_error option \<times> session" where
  "advanceToNextSegment s =
     (if state s = AWAITING_TRANSITION
      then (None, s\<lparr>segmentIndex := segmentIndex s + 1, pointIndex := 0, state := ON_SEGMENT\<rparr>)
      else (Some InvalidTransition, s))"

definition reset :: "session \<Rightarrow> session" where
  "reset s = newSession (route s)"

text \<open>
  The calls a driver makes on one session between its construction and its completion or
  reset, and the run of such a sequence of calls.
\<close>

datatype session_call = StartPlayback | AdvancePoint | AdvanceToNextSegment

fun call :: "session_call \<Rightarrow> session \<Rightarrow> nav_error option \<times> session" where
  "call StartPlayback s = startPlayback s"
| "call AdvancePoint s = advancePoint s"
| "call AdvanceToNextSegment s = advanceToNextSegment s"

fun run :: "session_call list \<Rightarrow> session \<Rightarrow> session" where
  "run [] s = s"
| "run (c # cs) s = run cs (snd (call c s))"

text \<open>
  The number of \<open>advanceToNextSegment\<close> calls of a run that were made while the session was
  in \<open>AWAITING_TRANSITION\<close>.
\<close>

fun transitions :: "session_call list \<Rightarrow> session \<Rightarrow> nat" where
  "transitions [] s = 0"
| "transitions (c # cs) s =
     (if c = AdvanceToNextSegment \<and> state s = AWAITING_TRANSITION then 1 else 0)
       + transitions cs (snd (call c s))"

text \<open>
  What holds of a session on the route \<open>r\<close> at every moment of a run: the segment index
  stays within the route, a transition is awaited only before the last segment, and
  completion is on the last segment.
\<close>

definition session_inv :: "segment list \<Rightarrow> session \<Rightarrow> bool" where
  "session_inv r s =
     (route s = r \<and> state s \<noteq> ABORTED
      \<and> (state s = AWAITING_START \<longrightarrow> segmentIndex s = 0)
      \<and> (state s = ON_SEGMENT \<longrightarrow> segmentIndex s < length r)
      \<and> (state s = AWAITING_TRANSITION \<longrightarrow> segmentIndex s + 1 < length r)
      \<and> (state s = COMPLETED \<longrightarrow> segmentIndex s + 1 = length r))"

section \<open>Concrete inputs\<close>

text \<open>
  A two-point segment on map \<open>m\<close>, the same points on map \<open>n\<close>, and replies of the summary
  endpoint with a given summary text.
\<close>

definition two_nodes :: "node list" where
  "two_nodes = [\<lparr>node_id = ''a'', node_name = ''Lobby'', node_type = ''ROOM''\<rparr>,
                \<lparr>node_id = ''b'', node_name = ''Lift'', node_type = ''GATEWAY''\<rparr>]"

definition segment_params :: GenerateSummaryParams where
  "segment_params = \<lparr>nodes = two_nodes, mapId = ''m'', isLastMap = True\<rparr>"


definition summary_reply :: "string \<Rightarrow> js_error + http_response" where
  "summary_reply t =
     Inr \<lparr>ok = True, status = 200, text_body = Inr [],
          json_body = Inr (JObj [(''success'', JBool True), (''summary'', JStr t)])\<rparr>"

text \<open>Two detected items: one with the bounding box of the prompt's example, one without a box.\<close>

definition room_item :: json where
  "room_item = JObj [(''label'', JStr ''Room 101''),
                     (''box_2d'', JArr [JNum 150, JNum 400, JNum 180, JNum 450])]"

definition unboxed_item :: json where
  "unboxed_item = JObj [(''label'', JStr ''Stairs'')]"

text \<open>A store with two map documents, one of them with a database-stored image.\<close>

definition floor_db :: firestore where
  "floor_db =
     \<lparr>maps_collection =
        [(''doc1'', [(''id'', JStr ''floor1''), (''name'', JStr ''First floor''),
                     (''imageUrl'', JStr ''/api/images/map-1-abc'')]),
         (''doc2'', [(''name'', JStr ''Second floor'')])],
      map_images = [(''map-1-abc'', [(''mimeType'', JStr ''image/webp'')])]\<rparr>"

definition no_faults :: faults where
  "no_faults = (\<lambda>op. None)"

definition image_fault :: faults where
  "image_fault = (\<lambda>op. if op = ImagesDocDelete ''map-1-abc'' then Some (JsError ''unavailable'') else None)"

text \<open>The two-floor route of the design document's scenario.\<close>

definition two_floor_route :: "segment list" where
  "two_floor_route =
     [\<lparr>floorId = ''A'', pointIds = [''P1'', ''P2''], cumulativeDistance = 10\<rparr>,
      \<lparr>floorId = ''B'', pointIds = [''Q1'', ''Q2''], cumulativeDistance = 20\<rparr>]"

text \<open>The single floor of the design document's scenario: X at (0, 0), Y at (3, 4), connected.\<close>

definition xy_floor :: graph where
  "xy_floor =
     \<lparr>points =
        [\<lparr>point_id = ''X'', point_name = ''X'', kind = ORDINARY, position = (0, 0), link = None\<rparr>,
         \<lparr>point_id = ''Y'', point_name = ''Y'', kind = ORDINARY, position = (3, 4), link = None\<rparr>],
      adjacency = [(''X'', [''Y'']), (''Y'', [''X''])]\<rparr>"

section \<open>Properties of the summary service\<close>

subsection \<open>What a call does to the cache\<close>


lemma begin_cache: "summaryCache (snd (fetchSummary_begin p st)) = summaryCache st"
  by (simp add: fetchSummary_begin_def split: option.splits)

lemma failed_try:
  "collaborator_failed reply \<Longrightarrow>
     snd (fetchSummary_try reply p st) = st \<and> fst (fetchSummary_try reply p st) \<noteq> Inr (Some t)"
  by (auto simp: fetchSummary_try_def collaborator_failed_def payload_ok_def Let_def
           split: sum.splits option.splits json.splits if_splits)

lemma failed_resume:
  assumes "collaborator_failed reply"
  shows "fetchSummary_resume reply p st = (Inr None, st)"
proof -
  have s: "snd (fetchSummary_try reply p st) = st"
    using failed_try [OF assms] by blast
  have r: "\<And>t. fst (fetchSummary_try reply p st) \<noteq> Inr (Some t)"
    using failed_try [OF assms] by blast
  show ?thesis
  proof (cases "fetchSummary_try reply p st")
    case (Pair res st')
    then have st': "st' = st" using s by simp
    show ?thesis
    proof (cases res)
      case (Inl e)
      then show ?thesis using Pair st' by (simp add: fetchSummary_resume_def)
    next
      case (Inr v)
      then have "v = None" using r Pair by (cases v) auto
      then show ?thesis using Pair Inr st' by (simp add: fetchSummary_resume_def)
    qed
  qed
qed









subsection \<open>Concrete runs\<close>



lemma trim_nbsp: "trim [CHR 0xC2, CHR 0xA0] = []"
  by (simp add: trim_def white_space_def token_length_def)



lemma segment_request: "(nodes segment_params, isLastMap segment_params) = (two_nodes, True)"
  by (simp add: segment_params_def)

lemma begin_miss:
  "fetchSummary_begin segment_params \<lparr>summaryCache = Map.empty, requests = rs\<rparr>
     = (Awaiting, \<lparr>summaryCache = Map.empty, requests = rs @ [(two_nodes, True)]\<rparr>)"
  by (simp add: fetchSummary_begin_def segment_request)
     (simp add: segment_params_def two_nodes_def)




subsection \<open>The cache across calls\<close>




subsection \<open>Collaborator failures\<close>

lemma resume_resolves: "\<exists>r. fst (fetchSummary_resume reply p st) = Inr r"
  by (auto simp: fetchSummary_resume_def split: prod.splits sum.splits)

lemma fetchSummary_resolves: "\<exists>r. fst (fetchSummary reply p st) = Inr r"
proof (cases "fetchSummary_begin p st")
  case (Pair b st')
  then show ?thesis
    using resume_resolves [of reply p st']
    by (cases b) (simp_all add: fetchSummary_def)
qed

lemma fetchSummary_requests:
  "requests (snd (fetchSummary reply p st)) \<noteq> requests st \<Longrightarrow>
     fetchSummary_begin p st
       = (Awaiting, st\<lparr>requests := requests st @ [(nodes p, isLastMap p)]\<rparr>)"
  by (auto simp: fetchSummary_def fetchSummary_begin_def split: option.splits if_splits)

text \<open>
  Claim C5: \<^verbatim>\<open>fetchSummary\<close> never throws (its promise always resolves); the part of a
  call that runs before the response is awaited never writes the cache; and for every
  collaborator failure (\<^verbatim>\<open>fetch\<close> throws, the response is not OK, reading the body
  throws, the payload is unsuccessful or has no non-blank summary string) the call that
  awaited the response returns \<^verbatim>\<open>null\<close> and leaves the module state, the summary cache
  in it, as it was at that moment; so a whole call leaves the cache unchanged and, when it
  posted its request, returns \<^verbatim>\<open>null\<close>.
\<close>

theorem fetchSummary_degrades:
  "(\<exists>r. fst (fetchSummary reply p st) = Inr r)
   \<and> (\<exists>r. fst (fetchSummary_resume reply p st) = Inr r)
   \<and> summaryCache (snd (fetchSummary_begin p st)) = summaryCache st
   \<and> (collaborator_failed reply \<longrightarrow>
        fetchSummary_resume reply p st = (Inr None, st)
        \<and> summaryCache (snd (fetchSummary reply p st)) = summaryCache st
        \<and> (requests (snd (fetchSummary reply p st)) \<noteq> requests st
             \<longrightarrow> fst (fetchSummary reply p st) = Inr None))"
proof (intro conjI impI)
  show "\<exists>r. fst (fetchSummary reply p st) = Inr r"
    by (rule fetchSummary_resolves)
  show "\<exists>r. fst (fetchSummary_resume reply p st) = Inr r"
    by (rule resume_resolves)
  show "summaryCache (snd (fetchSummary_begin p st)) = summaryCache st"
    by (rule begin_cache)
next
  assume failed: "collaborator_failed reply"
  show "fetchSummary_resume reply p st = (Inr None, st)"
    using failed by (rule failed_resume)
  show "summaryCache (snd (fetchSummary reply p st)) = summaryCache st"
  proof (cases "fetchSummary_begin p st")
    case (Pair b st')
    have "summaryCache st' = summaryCache st"
      using begin_cache [of p st] Pair by simp
    then show ?thesis
      using Pair failed by (cases b) (simp_all add: fetchSummary_def failed_resume)
  qed
next
  assume failed: "collaborator_failed reply"
    and "requests (snd (fetchSummary reply p st)) \<noteq> requests st"
  then have "fetchSummary_begin p st
       = (Awaiting, st\<lparr>requests := requests st @ [(nodes p, isLastMap p)]\<rparr>)"
    by (simp add: fetchSummary_requests)
  then show "fst (fetchSummary reply p st) = Inr None"
    using failed by (simp add: fetchSummary_def failed_resume)
qed

theorem fetchSummary_degrades_witness:
  "collaborator_failed (summary_reply [CHR 0xC2, CHR 0xA0])
   \<and> requests (snd (fetchSummary (summary_reply [CHR 0xC2, CHR 0xA0]) segment_params
                      initial_service))
        \<noteq> requests initial_service
   \<and> (\<exists>r. fst (fetchSummary (summary_reply [CHR 0xC2, CHR 0xA0]) segment_params
                  initial_service) = Inr r)
   \<and> fetchSummary_resume (summary_reply [CHR 0xC2, CHR 0xA0]) segment_params initial_service
        = (Inr None, initial_service)
   \<and> summaryCache (snd (fetchSummary (summary_reply [CHR 0xC2, CHR 0xA0]) segment_params
                          initial_service))
        = summaryCache initial_service
   \<and> fst (fetchSummary (summary_reply [CHR 0xC2, CHR 0xA0]) segment_params initial_service)
        = Inr None"
proof -
  have c: "collaborator_failed (summary_reply [CHR 0xC2, CHR 0xA0])"
    by (simp add: collaborator_failed_def payload_ok_def summary_reply_def trim_nbsp)
  have b: "fetchSummary_begin segment_params initial_service
     = (Awaiting, \<lparr>summaryCache = Map.empty, requests = [(two_nodes, True)]\<rparr>)"
    using begin_miss [of "[]"] by (simp add: initial_service_def)
  have r: "requests (snd (fetchSummary (summary_reply [CHR 0xC2, CHR 0xA0]) segment_params
                            initial_service))
             \<noteq> requests initial_service"
    using c b by (simp add: fetchSummary_def failed_resume initial_service_def)
  from fetchSummary_degrades [of "summary_reply [CHR 0xC2, CHR 0xA0]" segment_params
      initial_service] c r
  show ?thesis by blast
qed

subsection \<open>Paths of fewer than two nodes\<close>

lemma nodes_invalid_guard:
  "b \<noteq> JNull \<Longrightarrow> nodes_invalid b \<Longrightarrow>
     summary_POST_try (Inr b) modelReply = Inr (error_response 400 ''Invalid path nodes provided'')"
  by (cases b)
     (auto simp: nodes_invalid_def summary_POST_try_def split: option.splits json.splits)

text \<open>
  Claim C8, amended: \<^verbatim>\<open>fetchSummary\<close> called with fewer than two nodes returns
  \<^verbatim>\<open>null\<close> at once and leaves the service state as it is (no request, no cache
  change); and the summary endpoint, when the API key is configured and the request body
  is a JSON value other than \<^verbatim>\<open>null\<close>, answers 400 to a request whose \<^verbatim>\<open>nodes\<close>
  field is missing, not an array, or shorter than two elements.
\<close>

theorem short_path_rejected:
  "(length (nodes p) < 2 \<longrightarrow> fetchSummary reply p st = (Inr None, st))
   \<and> (\<not> env_missing apiKey \<and> b \<noteq> JNull \<and> nodes_invalid b \<longrightarrow>
        summary_POST apiKey (Inr b) modelReply
          = error_response 400 ''Invalid path nodes provided'')"
proof (intro conjI impI)
  assume "length (nodes p) < 2"
  then show "fetchSummary reply p st = (Inr None, st)"
    by (simp add: fetchSummary_def fetchSummary_begin_def)
next
  assume req: "\<not> env_missing apiKey \<and> b \<noteq> JNull \<and> nodes_invalid b"
  then have "summary_POST_try (Inr b) modelReply
               = Inr (error_response 400 ''Invalid path nodes provided'')"
    by (simp add: nodes_invalid_guard)
  then show "summary_POST apiKey (Inr b) modelReply
               = error_response 400 ''Invalid path nodes provided''"
    using req by (simp add: summary_POST_def)
qed

text \<open>
  Claim C8, as stated, at concrete requests: with the API key unset, a request with an
  empty \<^verbatim>\<open>nodes\<close> array is answered 500 by the key guard that precedes the validation;
  and a request whose body is \<^verbatim>\<open>null\<close> is answered 500, the destructuring throwing
  before the validation.
\<close>

theorem summary_POST_guard_counterexample:
  "nodes_invalid (JObj [(''nodes'', JArr [])])
   \<and> status_code (summary_POST None (Inr (JObj [(''nodes'', JArr [])])) (Inr ''ok'')) = 500
   \<and> nodes_invalid JNull
   \<and> status_code (summary_POST (Some ''key'') (Inr JNull) (Inr ''ok'')) = 500"
  by (simp add: nodes_invalid_def summary_POST_def summary_POST_try_def error_response_def)

theorem short_path_rejected_witness:
  "length (nodes (segment_params\<lparr>nodes := [hd two_nodes]\<rparr>)) < 2
   \<and> \<not> env_missing (Some ''key'')
   \<and> JObj [(''nodes'', JArr [JObj [(''id'', JStr ''a'')]])] \<noteq> JNull
   \<and> nodes_invalid (JObj [(''nodes'', JArr [JObj [(''id'', JStr ''a'')]])])
   \<and> fetchSummary (summary_reply ''go left'') (segment_params\<lparr>nodes := [hd two_nodes]\<rparr>)
        initial_service = (Inr None, initial_service)
   \<and> summary_POST (Some ''key'') (Inr (JObj [(''nodes'', JArr [JObj [(''id'', JStr ''a'')]])]))
        (Inr ''go left'') = error_response 400 ''Invalid path nodes provided''"
  using short_path_rejected [of "segment_params\<lparr>nodes := [hd two_nodes]\<rparr>"
      "summary_reply ''go left''" initial_service "Some ''key''"
      "JObj [(''nodes'', JArr [JObj [(''id'', JStr ''a'')]])]" "Inr ''go left''"]
  by (simp add: nodes_invalid_def two_nodes_def)

section \<open>Properties of the map digitization endpoint\<close>

subsection \<open>Bounding boxes to percentages\<close>

lemma toFixed2_twentieth:
  assumes "0 \<le> m" "m \<le> 2000"
  shows "toFixed2 (Num (of_int m / 2 / 10)) = Num (of_int m / 2 / 10)"
proof -
  let ?v = "(of_int m / 2 / 10 :: rat)"
  have nonneg: "0 \<le> ?v" using assms by simp
  have small: "\<not> 10 ^ 21 \<le> \<bar>?v\<bar>"
  proof -
    have "?v \<le> 100" using assms by simp
    then show ?thesis using nonneg by simp
  qed
  have "\<bar>?v\<bar> * 100 + 1 / 2 = of_int (5 * m) + 1 / 2"
    using nonneg by simp
  then have fl: "\<lfloor>\<bar>?v\<bar> * 100 + 1 / 2\<rfloor> = 5 * m"
    by (simp only:) linarith
  have "sgn ?v * of_int (5 * m) / 100 = ?v"
  proof (cases "m = 0")
    case True
    then show ?thesis by simp
  next
    case False
    then have "0 < ?v" using assms by simp
    then show ?thesis by (simp add: sgn_if)
  qed
  then show ?thesis
    using small fl by simp
qed

lemma percent_range:
  assumes "0 \<le> m" "m \<le> 2000"
  shows "0 \<le> (of_int m / 2 / 10 :: rat) \<and> (of_int m / 2 / 10 :: rat) \<le> 100"
  using assms by simp

lemma process_item_box:
  assumes box: "get_prop item ''box_2d''
                  = Inr (Some (JArr [JNum (of_int ymin), JNum (of_int xmin),
                                     JNum (of_int ymax), JNum (of_int xmax)]))"
    and grid: "0 \<le> ymin" "ymin \<le> 1000" "0 \<le> xmin" "xmin \<le> 1000"
              "0 \<le> ymax" "ymax \<le> 1000" "0 \<le> xmax" "xmax \<le> 1000"
  shows "\<exists>lbl. get_prop item ''label'' = Inr lbl
         \<and> process_item item
            = Inr \<lparr>label = lbl,
                   x_coord = Num ((of_int xmin + of_int xmax) / 2 / 10),
                   y_coord = Num ((of_int ymin + of_int ymax) / 2 / 10)\<rparr>
         \<and> 0 \<le> ((of_int xmin + of_int xmax) / 2 / 10 :: rat)
         \<and> ((of_int xmin + of_int xmax) / 2 / 10 :: rat) \<le> 100
         \<and> 0 \<le> ((of_int ymin + of_int ymax) / 2 / 10 :: rat)
         \<and> ((of_int ymin + of_int ymax) / 2 / 10 :: rat) \<le> 100"
proof -
  obtain fs where item: "item = JObj fs"
    using box by (cases item) auto
  have fx: "toFixed2 (Num ((of_int xmin + of_int xmax) / 2 / 10))
              = Num ((of_int xmin + of_int xmax) / 2 / 10)"
    using toFixed2_twentieth [of "xmin + xmax"] grid by simp
  have fy: "toFixed2 (Num ((of_int ymin + of_int ymax) / 2 / 10))
              = Num ((of_int ymin + of_int ymax) / 2 / 10)"
    using toFixed2_twentieth [of "ymin + ymax"] grid by simp
  have "process_item item
          = Inr \<lparr>label = map_of fs ''label'',
                 x_coord = Num ((of_int xmin + of_int xmax) / 2 / 10),
                 y_coord = Num ((of_int ymin + of_int ymax) / 2 / 10)\<rparr>"
    using box fx fy unfolding item process_item_def
    by (simp del: toFixed2.simps)
  moreover have "0 \<le> ((of_int xmin + of_int xmax) / 2 / 10 :: rat)
         \<and> ((of_int xmin + of_int xmax) / 2 / 10 :: rat) \<le> 100"
    using percent_range [of "xmin + xmax"] grid by simp
  moreover have "0 \<le> ((of_int ymin + of_int ymax) / 2 / 10 :: rat)
         \<and> ((of_int ymin + of_int ymax) / 2 / 10 :: rat) \<le> 100"
    using percent_range [of "ymin + ymax"] grid by simp
  moreover have "get_prop item ''label'' = Inr (map_of fs ''label'')"
    unfolding item by simp
  ultimately show ?thesis by blast
qed


lemma process_item_total:
  "item \<noteq> JNull \<Longrightarrow> \<exists>n. process_item item = Inr n"
  by (cases item) (simp_all add: process_item_def split: prod.splits)

lemma map_items_total:
  "JNull \<notin> set items \<Longrightarrow>
     \<exists>ns. map_items items = Inr ns \<and> list_all2 (\<lambda>item n. process_item item = Inr n) items ns"
proof (induction items)
  case Nil
  then show ?case by simp
next
  case (Cons item items)
  then obtain ns where ns: "map_items items = Inr ns"
      "list_all2 (\<lambda>item n. process_item item = Inr n) items ns"
    by auto
  have "item \<noteq> JNull" using Cons.prems by auto
  then obtain n where n: "process_item item = Inr n"
    using process_item_total by blast
  show ?case
    using ns n by simp
qed

text \<open>
  Claim C4, as stated, at a concrete response: the item \<open>Room 101\<close> has a 4-element box of
  integers of the grid, but the response also holds an item that is \<^verbatim>\<open>null\<close>; reading
  \<^verbatim>\<open>item.box_2d\<close> of that one throws, the request fails with status 500, and the endpoint
  puts out no position for \<open>Room 101\<close>.
\<close>

theorem boxed_item_lost_counterexample:
  "get_prop room_item ''box_2d''
     = Inr (Some (JArr [JNum 150, JNum 400, JNum 180, JNum 450]))
   \<and> analyze_respond (JArr [JNull, room_item]) = AnalyzeFailure 500 ''Failed to analyze map''"
  by (simp add: analyze_respond_def process_item_def room_item_def)

text \<open>
  Claim C4, amended: when no item of the digitization response is \<^verbatim>\<open>null\<close>, then for
  every item of it whose \<^verbatim>\<open>box_2d\<close> is a 4-element array \<^verbatim>\<open>[ymin, xmin, ymax, xmax]\<close>
  of integers of the 0 to 1000 grid, the endpoint answers with the list of nodes, one per
  item and in order, in which the node of that item has its label,
  \<open>x = ((xmin + xmax) / 2) / 10\<close> and \<open>y = ((ymin + ymax) / 2) / 10\<close>, the rounding to two
  decimals leaving these values as they are, and both lie between 0 and 100.
\<close>

theorem box_center_percent:
  assumes nonnull: "JNull \<notin> set items" and i: "i < length items"
    and box: "get_prop (items ! i) ''box_2d''
                = Inr (Some (JArr [JNum (of_int ymin), JNum (of_int xmin),
                                   JNum (of_int ymax), JNum (of_int xmax)]))"
    and grid: "0 \<le> ymin" "ymin \<le> 1000" "0 \<le> xmin" "xmin \<le> 1000"
              "0 \<le> ymax" "ymax \<le> 1000" "0 \<le> xmax" "xmax \<le> 1000"
  shows "\<exists>ns. analyze_respond (JArr items) = AnalyzeSuccess ns
           \<and> length ns = length items
           \<and> get_prop (items ! i) ''label'' = Inr (label (ns ! i))
           \<and> x_coord (ns ! i) = Num ((of_int xmin + of_int xmax) / 2 / 10)
           \<and> y_coord (ns ! i) = Num ((of_int ymin + of_int ymax) / 2 / 10)
           \<and> 0 \<le> ((of_int xmin + of_int xmax) / 2 / 10 :: rat)
           \<and> ((of_int xmin + of_int xmax) / 2 / 10 :: rat) \<le> 100
           \<and> 0 \<le> ((of_int ymin + of_int ymax) / 2 / 10 :: rat)
           \<and> ((of_int ymin + of_int ymax) / 2 / 10 :: rat) \<le> 100"
proof -
  obtain ns where ns: "map_items items = Inr ns"
      "list_all2 (\<lambda>item n. process_item item = Inr n) items ns"
    using map_items_total [OF nonnull] by blast
  have len: "length ns = length items"
    using ns(2) by (simp add: list_all2_lengthD)
  have p: "process_item (items ! i) = Inr (ns ! i)"
    using list_all2_nthD [OF ns(2) i] by simp
  from process_item_box [OF box grid]
  obtain lbl where b: "get_prop (items ! i) ''label'' = Inr lbl"
      "process_item (items ! i)
         = Inr \<lparr>label = lbl,
                x_coord = Num ((of_int xmin + of_int xmax) / 2 / 10),
                y_coord = Num ((of_int ymin + of_int ymax) / 2 / 10)\<rparr>"
      "0 \<le> ((of_int xmin + of_int xmax) / 2 / 10 :: rat)"
      "((of_int xmin + of_int xmax) / 2 / 10 :: rat) \<le> 100"
      "0 \<le> ((of_int ymin + of_int ymax) / 2 / 10 :: rat)"
      "((of_int ymin + of_int ymax) / 2 / 10 :: rat) \<le> 100"
    by blast
  have n: "ns ! i = \<lparr>label = lbl,
                x_coord = Num ((of_int xmin + of_int xmax) / 2 / 10),
                y_coord = Num ((of_int ymin + of_int ymax) / 2 / 10)\<rparr>"
    using p b(2) by simp
  have a: "analyze_respond (JArr items) = AnalyzeSuccess ns"
    using ns(1) by (simp add: analyze_respond_def)
  have "get_prop (items ! i) ''label'' = Inr (label (ns ! i))"
    "x_coord (ns ! i) = Num ((of_int xmin + of_int xmax) / 2 / 10)"
    "y_coord (ns ! i) = Num ((of_int ymin + of_int ymax) / 2 / 10)"
    using b(1) by (simp_all add: n)
  then show ?thesis
    using a len b(3-6) by blast
qed

theorem box_center_percent_witness:
  "JNull \<notin> set [unboxed_item, room_item]
   \<and> (1::nat) < length [unboxed_item, room_item]
   \<and> get_prop ([unboxed_item, room_item] ! 1) ''box_2d''
     = Inr (Some (JArr [JNum (of_int 150), JNum (of_int 400), JNum (of_int 180), JNum (of_int 450)]))
   \<and> (0::int) \<le> 150 \<and> (150::int) \<le> 1000 \<and> (0::int) \<le> 400 \<and> (400::int) \<le> 1000
   \<and> (0::int) \<le> 180 \<and> (180::int) \<le> 1000 \<and> (0::int) \<le> 450 \<and> (450::int) \<le> 1000
   \<and> (\<exists>ns. analyze_respond (JArr [unboxed_item, room_item]) = AnalyzeSuccess ns
           \<and> length ns = length [unboxed_item, room_item]
           \<and> get_prop ([unboxed_item, room_item] ! 1) ''label'' = Inr (label (ns ! 1))
           \<and> x_coord (ns ! 1) = Num ((of_int 400 + of_int 450) / 2 / 10)
           \<and> y_coord (ns ! 1) = Num ((of_int 150 + of_int 180) / 2 / 10)
           \<and> 0 \<le> ((of_int 400 + of_int 450) / 2 / 10 :: rat)
           \<and> ((of_int 400 + of_int 450) / 2 / 10 :: rat) \<le> 100
           \<and> 0 \<le> ((of_int 150 + of_int 180) / 2 / 10 :: rat)
           \<and> ((of_int 150 + of_int 180) / 2 / 10 :: rat) \<le> 100)"
proof -
  have nn: "JNull \<notin> set [unboxed_item, room_item]"
    by (simp add: room_item_def unboxed_item_def)
  have i: "(1::nat) < length [unboxed_item, room_item]"
    by simp
  have box: "get_prop ([unboxed_item, room_item] ! 1) ''box_2d''
     = Inr (Some (JArr [JNum (of_int 150), JNum (of_int 400), JNum (of_int 180), JNum (of_int 450)]))"
    by (simp add: room_item_def)
  have grid: "(0::int) \<le> 150" "(150::int) \<le> 1000" "(0::int) \<le> 400" "(400::int) \<le> 1000"
    "(0::int) \<le> 180" "(180::int) \<le> 1000" "(0::int) \<le> 450" "(450::int) \<le> 1000"
    by simp_all
  from box_center_percent [OF nn i box grid] nn i box grid
  show ?thesis by blast
qed

subsection \<open>Items without a bounding box\<close>

lemma no_box_default:
  assumes "item \<noteq> JNull" "\<not> has_box item"
  shows "\<exists>lbl. process_item item = Inr \<lparr>label = lbl, x_coord = Num 50, y_coord = Num 50\<rparr>"
proof -
  have "\<lfloor>(10001 :: rat) / 2\<rfloor> = 5000"
    by linarith
  then have fifty: "toFixed2 (Num 50) = Num 50"
    by simp
  obtain b where b: "get_prop item ''box_2d'' = Inr b"
    using assms(1) by (cases item) auto
  obtain l where l: "get_prop item ''label'' = Inr l"
    using assms(1) by (cases item) auto
  have nobox: "\<not> (truthy_val b \<and> isArray b \<and> length (array_items b) = 4)"
  proof
    assume h: "truthy_val b \<and> isArray b \<and> length (array_items b) = 4"
    then obtain xs where xs: "b = Some (JArr xs)" "length xs = 4"
      by (cases b rule: isArray.cases) auto
    then obtain a1 a2 a3 a4 where "xs = [a1, a2, a3, a4]"
      by (auto simp: length_Suc_conv numeral_eq_Suc)
    with xs b have "has_box item"
      by (simp add: has_box_def)
    with assms(2) show False by simp
  qed
  show ?thesis
    using b l nobox fifty unfolding process_item_def
    by (auto simp del: toFixed2.simps)
qed

text \<open>
  Claim C9, amended: when no item of the digitization response is \<^verbatim>\<open>null\<close>, the
  endpoint answers with one node per item, in order, and every item that lacks a 4-element
  \<^verbatim>\<open>box_2d\<close> array gets the default position (50, 50); no item is dropped and the
  request does not fail.
\<close>

theorem missing_box_defaults_to_center:
  assumes "JNull \<notin> set items"
  shows "\<exists>ns. analyze_respond (JArr items) = AnalyzeSuccess ns
           \<and> length ns = length items
           \<and> (\<forall>i < length items. \<not> has_box (items ! i) \<longrightarrow>
                process_item (items ! i) = Inr (ns ! i)
                \<and> x_coord (ns ! i) = Num 50 \<and> y_coord (ns ! i) = Num 50)"
proof -
  obtain ns where ns: "map_items items = Inr ns"
      "list_all2 (\<lambda>item n. process_item item = Inr n) items ns"
    using map_items_total [OF assms] by blast
  have len: "length ns = length items"
    using ns(2) by (simp add: list_all2_lengthD)
  have "\<forall>i < length items. \<not> has_box (items ! i) \<longrightarrow>
          process_item (items ! i) = Inr (ns ! i)
          \<and> x_coord (ns ! i) = Num 50 \<and> y_coord (ns ! i) = Num 50"
  proof (intro allI impI)
    fix i assume i: "i < length items" and nb: "\<not> has_box (items ! i)"
    have p: "process_item (items ! i) = Inr (ns ! i)"
      using list_all2_nthD [OF ns(2) i] by simp
    have "items ! i \<noteq> JNull"
      using assms i by (metis nth_mem)
    from no_box_default [OF this nb] p
    show "process_item (items ! i) = Inr (ns ! i)
          \<and> x_coord (ns ! i) = Num 50 \<and> y_coord (ns ! i) = Num 50"
      by auto
  qed
  then show ?thesis
    using ns(1) len by (simp add: analyze_respond_def)
qed

text \<open>
  Claim C9, as stated, at a concrete response: an item that is \<^verbatim>\<open>null\<close> lacks a
  \<^verbatim>\<open>box_2d\<close> array, and reading \<^verbatim>\<open>item.box_2d\<close> throws, so the whole request fails
  with status 500 and the well-formed item before it is lost too.
\<close>

theorem null_item_fails_request_counterexample:
  "\<not> has_box JNull
   \<and> analyze_respond (JArr [room_item, JNull]) = AnalyzeFailure 500 ''Failed to analyze map''"
  by (simp add: has_box_def analyze_respond_def process_item_def room_item_def)

theorem missing_box_defaults_to_center_witness:
  "JNull \<notin> set [room_item, unboxed_item]
   \<and> (1::nat) < length [room_item, unboxed_item]
   \<and> \<not> has_box ([room_item, unboxed_item] ! 1)
   \<and> (\<exists>ns. analyze_respond (JArr [room_item, unboxed_item]) = AnalyzeSuccess ns
           \<and> length ns = 2
           \<and> x_coord (ns ! 1) = Num 50 \<and> y_coord (ns ! 1) = Num 50)"
proof -
  have a: "JNull \<notin> set [room_item, unboxed_item]"
    by (simp add: room_item_def unboxed_item_def)
  have b: "\<not> has_box ([room_item, unboxed_item] ! 1)"
    by (simp add: has_box_def unboxed_item_def)
  show ?thesis
    using a b missing_box_defaults_to_center [OF a]
    by auto
qed

section \<open>Properties of the map document endpoint\<close>

subsection \<open>GET\<close>

lemma status_codes [simp]:
  "status_code (found_response data d) = 200"
  "status_code (not_found_response i) = 404"
  "status_code (error_response c m) = c"
  by (simp_all add: found_response_def not_found_response_def error_response_def)

lemma where_id_field:
  "(doc_id, data) \<in> set (where_id db i) \<Longrightarrow> map_of data ''id'' = Some (JStr i)"
  by (auto simp: where_id_def)

lemma with_id_same:
  assumes "map_of data ''id'' = Some (JStr i)" "i \<noteq> []"
  shows "with_id data doc_id = JObj data"
  using assms by (simp add: with_id_def AList.update_triv)

lemma maps_GET_404:
  "status_code (fst (maps_GET fl db i)) = 404 \<Longrightarrow> where_id db i = [] \<and> doc_get db i = None"
  by (auto simp: maps_GET_def maps_GET_try_def
           split: option.splits list.splits prod.splits sum.splits if_splits)

lemma where_id_hit:
  assumes "fl (MapsWhereId i) = None" "where_id db i = (doc_id, data) # others"
  shows "maps_GET fl db i
           = (\<lparr>status_code = 200,
               body = JObj [(''success'', JBool True),
                            (''data'',
                             JObj (AList.update ''id'' (if i = [] then JStr doc_id else JStr i)
                                     data))]\<rparr>,
              [MapsWhereId i])"
proof -
  have "(doc_id, data) \<in> set (where_id db i)"
    using assms(2) by simp
  then have "map_of data ''id'' = Some (JStr i)"
    by (rule where_id_field)
  then show ?thesis
    using assms
    by (simp add: maps_GET_def maps_GET_try_def found_response_def with_id_def)
qed

text \<open>
  Claim C3: \<^verbatim>\<open>GET\<close> first queries the maps collection by the \<^verbatim>\<open>id\<close> field and, when
  the query has a result, answers 200 with its first document (as it is stored, for a
  non-empty requested id) without a second look-up; only when the query is empty does it
  fetch by document id, answering 200 with that document (its \<^verbatim>\<open>id\<close> completed by the
  document id when it has none) or 404; and it answers 404 only when the query is empty
  and no document has that document id.
\<close>

theorem maps_GET_lookup_order:
  "(status_code (fst (maps_GET fl db i)) = 404 \<longrightarrow> where_id db i = [] \<and> doc_get db i = None)
   \<and> (fl (MapsWhereId i) = None \<longrightarrow>
        (\<forall>doc_id data others. where_id db i = (doc_id, data) # others \<longrightarrow>
           maps_GET fl db i
             = (\<lparr>status_code = 200,
                 body = JObj [(''success'', JBool True),
                              (''data'',
                               JObj (AList.update ''id''
                                       (if i = [] then JStr doc_id else JStr i) data))]\<rparr>,
                [MapsWhereId i])
           \<and> (i \<noteq> [] \<longrightarrow>
                 maps_GET fl db i
                   = (\<lparr>status_code = 200,
                       body = JObj [(''success'', JBool True), (''data'', JObj data)]\<rparr>,
                      [MapsWhereId i])))
        \<and> (where_id db i = [] \<longrightarrow>
             snd (maps_GET fl db i) = [MapsWhereId i, MapsDocGet i]
             \<and> (fl (MapsDocGet i) = None \<longrightarrow>
                  fst (maps_GET fl db i)
                    = (case doc_get db i of
                         None \<Rightarrow>
                           \<lparr>status_code = 404,
                            body = JObj [(''success'', JBool False),
                                         (''error'',
                                          JStr (''Map '' @ [CHR 0x27] @ i @ [CHR 0x27]
                                                @ '' not found''))]\<rparr>
                       | Some data \<Rightarrow>
                           \<lparr>status_code = 200,
                            body = JObj [(''success'', JBool True),
                                         (''data'',
                                          JObj (AList.update ''id''
                                                  (case map_of data ''id'' of
                                                     Some v \<Rightarrow> if truthy v then v else JStr i
                                                   | None \<Rightarrow> JStr i)
                                                  data))]\<rparr>))))"
proof (intro conjI impI allI)
  assume "status_code (fst (maps_GET fl db i)) = 404"
  then show "where_id db i = []" "doc_get db i = None"
    using maps_GET_404 by blast+
next
  fix doc_id data others
  assume q: "fl (MapsWhereId i) = None" and w: "where_id db i = (doc_id, data) # others"
  show hit: "maps_GET fl db i
          = (\<lparr>status_code = 200,
              body = JObj [(''success'', JBool True),
                           (''data'',
                            JObj (AList.update ''id''
                                    (if i = [] then JStr doc_id else JStr i) data))]\<rparr>,
             [MapsWhereId i])"
    using q w by (rule where_id_hit)
  show "maps_GET fl db i
          = (\<lparr>status_code = 200,
              body = JObj [(''success'', JBool True), (''data'', JObj data)]\<rparr>,
             [MapsWhereId i])"
    if "i \<noteq> []"
  proof -
    have "(doc_id, data) \<in> set (where_id db i)"
      using w by simp
    then have "map_of data ''id'' = Some (JStr i)"
      by (rule where_id_field)
    then have "AList.update ''id'' (JStr i) data = data"
      by (rule AList.update_triv)
    then show ?thesis
      using hit that by simp
  qed
next
  assume "fl (MapsWhereId i) = None" "where_id db i = []"
  then show "snd (maps_GET fl db i) = [MapsWhereId i, MapsDocGet i]"
    by (simp add: maps_GET_def maps_GET_try_def split: option.splits)
next
  assume "fl (MapsWhereId i) = None" "where_id db i = []" "fl (MapsDocGet i) = None"
  then show "fst (maps_GET fl db i)
               = (case doc_get db i of
                    None \<Rightarrow>
                      \<lparr>status_code = 404,
                       body = JObj [(''success'', JBool False),
                                    (''error'',
                                     JStr (''Map '' @ [CHR 0x27] @ i @ [CHR 0x27]
                                           @ '' not found''))]\<rparr>
                  | Some data \<Rightarrow>
                      \<lparr>status_code = 200,
                       body = JObj [(''success'', JBool True),
                                    (''data'',
                                     JObj (AList.update ''id''
                                             (case map_of data ''id'' of
                                                Some v \<Rightarrow> if truthy v then v else JStr i
                                              | None \<Rightarrow> JStr i)
                                             data))]\<rparr>)"
    by (simp add: maps_GET_def maps_GET_try_def found_response_def with_id_def
          not_found_response_def error_response_def split: option.splits)
qed

lemma floor1_query:
  "where_id floor_db ''floor1''
     = [(''doc1'', [(''id'', JStr ''floor1''), (''name'', JStr ''First floor''),
                    (''imageUrl'', JStr ''/api/images/map-1-abc'')])]"
  by (simp add: where_id_def floor_db_def)

lemma doc2_query: "where_id floor_db ''doc2'' = []"
  by (simp add: where_id_def floor_db_def)

lemma nowhere_query: "where_id floor_db ''nowhere'' = []"
  by (simp add: where_id_def floor_db_def)

theorem maps_GET_lookup_order_witness:
  "no_faults (MapsWhereId ''floor1'') = None
   \<and> where_id floor_db ''floor1''
       = [(''doc1'', [(''id'', JStr ''floor1''), (''name'', JStr ''First floor''),
                      (''imageUrl'', JStr ''/api/images/map-1-abc'')])]
   \<and> ''floor1'' \<noteq> []
   \<and> maps_GET no_faults floor_db ''floor1''
       = (\<lparr>status_code = 200,
           body = JObj [(''success'', JBool True),
                        (''data'',
                         JObj [(''id'', JStr ''floor1''), (''name'', JStr ''First floor''),
                               (''imageUrl'', JStr ''/api/images/map-1-abc'')])]\<rparr>,
          [MapsWhereId ''floor1''])
   \<and> no_faults (MapsWhereId ''doc2'') = None \<and> no_faults (MapsDocGet ''doc2'') = None
   \<and> where_id floor_db ''doc2'' = []
   \<and> maps_GET no_faults floor_db ''doc2''
       = (\<lparr>status_code = 200,
           body = JObj [(''success'', JBool True),
                        (''data'',
                         JObj [(''name'', JStr ''Second floor''), (''id'', JStr ''doc2'')])]\<rparr>,
          [MapsWhereId ''doc2'', MapsDocGet ''doc2''])
   \<and> status_code (fst (maps_GET no_faults floor_db ''nowhere'')) = 404
   \<and> where_id floor_db ''nowhere'' = [] \<and> doc_get floor_db ''nowhere'' = None"
proof -
  have nf: "\<And>op. no_faults op = None"
    by (simp add: no_faults_def)
  have d2: "doc_get floor_db ''doc2'' = Some [(''name'', JStr ''Second floor'')]"
    by (simp add: doc_get_def floor_db_def)
  have d3: "doc_get floor_db ''nowhere'' = None"
    by (simp add: doc_get_def floor_db_def)
  have s3: "status_code (fst (maps_GET no_faults floor_db ''nowhere'')) = 404"
    using maps_GET_lookup_order [of no_faults floor_db "''nowhere''"] nf nowhere_query d3
    by simp
  have g2: "maps_GET no_faults floor_db ''doc2''
       = (\<lparr>status_code = 200,
           body = JObj [(''success'', JBool True),
                        (''data'',
                         JObj [(''name'', JStr ''Second floor''), (''id'', JStr ''doc2'')])]\<rparr>,
          [MapsWhereId ''doc2'', MapsDocGet ''doc2''])"
    using maps_GET_lookup_order [of no_faults floor_db "''doc2''"] nf doc2_query d2
    by (simp add: prod_eq_iff)
  have g1: "maps_GET no_faults floor_db ''floor1''
       = (\<lparr>status_code = 200,
           body = JObj [(''success'', JBool True),
                        (''data'',
                         JObj [(''id'', JStr ''floor1''), (''name'', JStr ''First floor''),
                               (''imageUrl'', JStr ''/api/images/map-1-abc'')])]\<rparr>,
          [MapsWhereId ''floor1''])"
    using maps_GET_lookup_order [of no_faults floor_db "''floor1''"] nf floor1_query
    by simp
  show ?thesis
    using nf floor1_query doc2_query nowhere_query d3 s3 g2 g1
    by simp
qed

subsection \<open>DELETE\<close>

lemma delete_lookup_effects:
  "delete_lookup fl i eff = (r, eff1) \<Longrightarrow>
     store eff1 = store eff \<and> console eff1 = console eff"
  by (auto simp: delete_lookup_def issue_def Let_def
           split: option.splits list.splits prod.splits if_splits)

lemma delete_image_failing:
  assumes "map_of mapData ''imageUrl'' = Some (JStr url)"
    and "isDatabaseImage url" and "getImageIdFromUrl url = Some imageId" and "imageId \<noteq> []"
    and "fl (ImagesDocDelete imageId) = Some imageError"
  shows "delete_image fl mapData eff
           = Inr (eff\<lparr>issued := issued eff @ [ImagesDocDelete imageId],
                      console := console eff @ [ErrorDeleteImage imageId imageError]\<rparr>)"
proof -
  have "url \<noteq> []"
    using assms(2) by (auto simp: isDatabaseImage_def startsWith_def)
  then show ?thesis
    using assms by (simp add: delete_image_def issue_def Let_def)
qed

text \<open>
  Claim C10: when the map is found, has a database-stored image, and deleting the image
  document throws, \<^verbatim>\<open>DELETE\<close> logs the image error, goes on to delete the map
  document, and reports success (the deletion of the map document itself not failing); the
  image collection is left as it was.
\<close>

theorem maps_DELETE_survives_image_failure:
  assumes found: "delete_lookup fl i eff = (Inr (Some (docRef, mapData)), eff1)"
    and image: "map_of mapData ''imageUrl'' = Some (JStr url)" "isDatabaseImage url"
      "getImageIdFromUrl url = Some imageId" "imageId \<noteq> []"
    and image_fails: "fl (ImagesDocDelete imageId) = Some imageError"
    and map_deletes: "fl (MapsDocDelete docRef) = None"
  shows "fst (maps_DELETE fl i eff)
           = \<lparr>status_code = 200,
              body = JObj [(''success'', JBool True),
                           (''message'',
                            JStr (''Map '' @ [CHR 0x27] @ i @ [CHR 0x27]
                                  @ '' deleted successfully''))]\<rparr>
         \<and> maps_collection (store (snd (maps_DELETE fl i eff)))
              = AList.delete docRef (maps_collection (store eff))
         \<and> map_images (store (snd (maps_DELETE fl i eff))) = map_images (store eff)
         \<and> console (snd (maps_DELETE fl i eff))
              = console eff @ [ErrorDeleteImage imageId imageError]
         \<and> issued (snd (maps_DELETE fl i eff))
              = issued eff1 @ [ImagesDocDelete imageId, MapsDocDelete docRef]"
proof -
  have same: "store eff1 = store eff" "console eff1 = console eff"
    using delete_lookup_effects [OF found] by simp_all
  have img: "delete_image fl mapData eff1
           = Inr (eff1\<lparr>issued := issued eff1 @ [ImagesDocDelete imageId],
                      console := console eff1 @ [ErrorDeleteImage imageId imageError]\<rparr>)"
    using image image_fails by (rule delete_image_failing)
  show ?thesis
    using found img map_deletes same
    by (simp add: maps_DELETE_def maps_DELETE_try_def issue_def Let_def)
qed


lemma floor1_lookup:
  "delete_lookup image_fault ''floor1'' (fresh floor_db)
     = (Inr (Some (''doc1'', [(''id'', JStr ''floor1''), (''name'', JStr ''First floor''),
                              (''imageUrl'', JStr ''/api/images/map-1-abc'')])),
        \<lparr>store = floor_db, console = [], issued = [MapsWhereId ''floor1'']\<rparr>)"
  by (simp add: delete_lookup_def image_fault_def fresh_def issue_def floor1_query Let_def)

lemma image_id: "getImageIdFromUrl ''/api/images/map-1-abc'' = Some ''map-1-abc''"
  by (simp add: getImageIdFromUrl_def isDatabaseImage_def startsWith_def)

theorem maps_DELETE_survives_image_failure_witness:
  "delete_lookup image_fault ''floor1'' (fresh floor_db)
     = (Inr (Some (''doc1'', [(''id'', JStr ''floor1''), (''name'', JStr ''First floor''),
                              (''imageUrl'', JStr ''/api/images/map-1-abc'')])),
        \<lparr>store = floor_db, console = [], issued = [MapsWhereId ''floor1'']\<rparr>)
   \<and> isDatabaseImage ''/api/images/map-1-abc''
   \<and> getImageIdFromUrl ''/api/images/map-1-abc'' = Some ''map-1-abc''
   \<and> image_fault (ImagesDocDelete ''map-1-abc'') = Some (JsError ''unavailable'')
   \<and> image_fault (MapsDocDelete ''doc1'') = None
   \<and> status_code (fst (maps_DELETE image_fault ''floor1'' (fresh floor_db))) = 200
   \<and> maps_collection (store (snd (maps_DELETE image_fault ''floor1'' (fresh floor_db))))
        = [(''doc2'', [(''name'', JStr ''Second floor'')])]
   \<and> map_images (store (snd (maps_DELETE image_fault ''floor1'' (fresh floor_db))))
        = [(''map-1-abc'', [(''mimeType'', JStr ''image/webp'')])]
   \<and> console (snd (maps_DELETE image_fault ''floor1'' (fresh floor_db)))
        = [ErrorDeleteImage ''map-1-abc'' (JsError ''unavailable'')]
   \<and> issued (snd (maps_DELETE image_fault ''floor1'' (fresh floor_db)))
        = [MapsWhereId ''floor1'', ImagesDocDelete ''map-1-abc'', MapsDocDelete ''doc1'']"
proof -
  have u: "map_of [(''id'', JStr ''floor1''), (''name'', JStr ''First floor''),
                   (''imageUrl'', JStr ''/api/images/map-1-abc'')] ''imageUrl''
             = Some (JStr ''/api/images/map-1-abc'')"
    by simp
  have d: "isDatabaseImage ''/api/images/map-1-abc''"
    by (simp add: isDatabaseImage_def startsWith_def)
  have ne: "''map-1-abc'' \<noteq> []"
    by simp
  have f: "image_fault (ImagesDocDelete ''map-1-abc'') = Some (JsError ''unavailable'')"
    by (simp add: image_fault_def)
  have m: "image_fault (MapsDocDelete ''doc1'') = None"
    by (simp add: image_fault_def)
  have before: "maps_collection (store (fresh floor_db))
                  = [(''doc1'', [(''id'', JStr ''floor1''), (''name'', JStr ''First floor''),
                                 (''imageUrl'', JStr ''/api/images/map-1-abc'')]),
                     (''doc2'', [(''name'', JStr ''Second floor'')])]"
    "map_images (store (fresh floor_db)) = [(''map-1-abc'', [(''mimeType'', JStr ''image/webp'')])]"
    "console (fresh floor_db) = []"
    by (simp_all add: fresh_def floor_db_def)
  from maps_DELETE_survives_image_failure [OF floor1_lookup u d image_id ne f m]
  show ?thesis
    using floor1_lookup d image_id f m before by simp
qed

section \<open>Properties of the pathfinder\<close>

declare dijkstra.simps [simp del]

subsection \<open>Paths\<close>

lemma distance_nonneg: "0 \<le> distance G a b"
  by (simp add: distance_def split: prod.splits)

lemma path_length_nonneg: "0 \<le> path_length G p"
  by (induction G p rule: path_length.induct) (simp_all add: distance_nonneg)

lemma is_path_nonempty: "is_path G p \<Longrightarrow> p \<noteq> []"
  by auto

lemma is_path_points: "is_path G p \<Longrightarrow> set p \<subseteq> set (point_ids G)"
  by (induction G p rule: is_path.induct) auto

lemma path_between_ends:
  "path_between G a p b \<Longrightarrow> a \<in> set (point_ids G) \<and> b \<in> set (point_ids G)"
  unfolding path_between_def
  using is_path_points [of G p] is_path_nonempty [of G p]
  by (metis hd_in_set last_in_set subsetD)

lemma is_path_snoc:
  "is_path G p \<Longrightarrow> v \<in> set (adjacent G (last p)) \<Longrightarrow> v \<in> set (point_ids G)
     \<Longrightarrow> is_path G (p @ [v])"
  by (induction G p rule: is_path.induct) auto

lemma path_length_snoc:
  "p \<noteq> [] \<Longrightarrow> path_length G (p @ [v]) = path_length G p + distance G (last p) v"
  by (induction G p rule: path_length.induct) auto

lemma path_between_snoc:
  assumes "path_between G a p u" "v \<in> set (adjacent G u)" "v \<in> set (point_ids G)"
  shows "path_between G a (p @ [v]) v"
    and "path_length G (p @ [v]) = path_length G p + distance G u v"
proof -
  have p: "is_path G p" "hd p = a" "last p = u" "p \<noteq> []"
    using assms(1) by (auto simp: path_between_def)
  show "path_between G a (p @ [v]) v"
    using is_path_snoc [OF p(1)] assms(2,3) p by (simp add: path_between_def)
  show "path_length G (p @ [v]) = path_length G p + distance G u v"
    using path_length_snoc [OF p(4)] p(3) by simp
qed

lemma path_between_single: "a \<in> set (point_ids G) \<Longrightarrow> path_between G a [a] a"
  by (simp add: path_between_def)

lemma path_crossing:
  assumes "is_path G q" "hd q \<notin> U" "last q \<in> U"
  shows "\<exists>q1 x y. x \<notin> U \<and> y \<in> U \<and> path_between G (hd q) q1 x
           \<and> y \<in> set (adjacent G x) \<and> y \<in> set (point_ids G)
           \<and> path_length G q1 + distance G x y \<le> path_length G q"
  using assms
proof (induction G q rule: is_path.induct)
  case (1 G)
  then show ?case by simp
next
  case (2 G v)
  then show ?case by simp
next
  case (3 G u v vs)
  have u: "u \<in> set (point_ids G)" and uv: "v \<in> set (adjacent G u)"
    and rest: "is_path G (v # vs)" and uU: "u \<notin> U"
    using "3.prems" by simp_all
  have vp: "v \<in> set (point_ids G)"
    using is_path_points [OF rest] by simp
  show ?case
  proof (cases "v \<in> U")
    case True
    have "path_between G u [u] u"
      using u by (rule path_between_single)
    moreover have "path_length G [u] + distance G u v \<le> path_length G (u # v # vs)"
      using path_length_nonneg [of G "v # vs"] by simp
    ultimately show ?thesis
      using True uU uv vp by (metis list.sel(1))
  next
    case False
    have "last (v # vs) \<in> U"
      using "3.prems"(3) by simp
    from "3.IH" [OF rest _ this] False
    obtain q1 x y where c: "x \<notin> U" "y \<in> U" "path_between G v q1 x"
      "y \<in> set (adjacent G x)" "y \<in> set (point_ids G)"
      "path_length G q1 + distance G x y \<le> path_length G (v # vs)"
      by auto
    obtain ws where q1: "q1 = v # ws"
      using c(3) by (cases q1) (auto simp: path_between_def)
    have "path_between G u (u # q1) x"
      using c(3) u uv unfolding q1 by (simp add: path_between_def)
    moreover have "path_length G (u # q1) + distance G x y \<le> path_length G (u # v # vs)"
      using c(6) unfolding q1 by simp
    ultimately show ?thesis
      using c(1,2,4,5) by (metis list.sel(1))
  qed
qed

subsection \<open>Selection and relaxation\<close>

lemma pick_None: "pick T vs = None \<Longrightarrow> v \<in> set vs \<Longrightarrow> T v = None"
  by (induction vs) (auto split: option.splits if_splits)

lemma pick_entry: "pick T vs = Some u \<Longrightarrow> T u \<noteq> None"
  by (induction vs arbitrary: u) (auto split: option.splits if_splits)

lemma pick_least:
  "pick T vs = Some u \<Longrightarrow> T u = Some (du, pu) \<Longrightarrow> v \<in> set vs \<Longrightarrow> T v = Some (dv, pv)
     \<Longrightarrow> du \<le> dv"
proof (induction vs arbitrary: u du pu)
  case Nil
  then show ?case by simp
next
  case (Cons w ws)
  show ?case
  proof (cases "T w")
    case None
    then show ?thesis
      using Cons by (cases "v = w") auto
  next
    case (Some e)
    obtain d p where e: "e = (d, p)" by (cases e)
    show ?thesis
    proof (cases "pick T ws")
      case None
      then have "u = w" using Cons.prems(1) Some e by simp
      moreover have "v \<in> set ws \<Longrightarrow> T v = None"
        using None pick_None by metis
      ultimately show ?thesis
        using Cons.prems Some e by auto
    next
      case (Some u')
      obtain du' pu' where u': "T u' = Some (du', pu')"
        using pick_entry [OF Some] by (cases "T u'") auto
      have least: "v \<in> set ws \<Longrightarrow> du' \<le> dv"
        using Cons.IH [OF Some u' _ Cons.prems(4)] by simp
      show ?thesis
      proof (cases "du' < d")
        case True
        then have "u = u'"
          using Cons.prems(1) \<open>T w = Some e\<close> e Some u' by simp
        then have "du = du'" using u' Cons.prems(2) by simp
        then show ?thesis
          using least True Cons.prems(3,4) \<open>T w = Some e\<close> e by (cases "v = w") auto
      next
        case False
        then have "u = w"
          using Cons.prems(1) \<open>T w = Some e\<close> e Some u' by simp
        then have "du = d" using \<open>T w = Some e\<close> e Cons.prems(2) by simp
        then show ?thesis
          using least False Cons.prems(3,4) \<open>T w = Some e\<close> e by (cases "v = w") auto
      qed
    qed
  qed
qed

lemma relax_other: "v \<noteq> w \<Longrightarrow> relax G u du pu w T v = T v"
  by (simp add: relax_def Let_def split: option.splits)

lemma fold_relax_other:
  "v \<notin> set ws \<Longrightarrow> fold (relax G u du pu) ws T v = T v"
  by (induction ws arbitrary: T) (simp_all add: relax_other)

lemma relax_origin:
  "relax G u du pu w T v = Some (d, p) \<Longrightarrow>
     T v = Some (d, p) \<or> (v = w \<and> d = du + distance G u v \<and> p = pu @ [v])"
  by (auto simp: relax_def Let_def split: option.splits if_splits)

lemma fold_relax_origin:
  "fold (relax G u du pu) ws T v = Some (d, p) \<Longrightarrow>
     T v = Some (d, p) \<or> (v \<in> set ws \<and> d = du + distance G u v \<and> p = pu @ [v])"
proof (induction ws arbitrary: T)
  case Nil
  then show ?case by simp
next
  case (Cons w ws)
  from Cons.IH [of "relax G u du pu w T"] Cons.prems
  have "relax G u du pu w T v = Some (d, p)
          \<or> (v \<in> set ws \<and> d = du + distance G u v \<and> p = pu @ [v])"
    by simp
  then show ?case
    using relax_origin [of G u du pu w T v d p] by auto
qed

lemma relax_decreases:
  "T v = Some (d, p) \<Longrightarrow> \<exists>d' p'. relax G u du pu w T v = Some (d', p') \<and> d' \<le> d"
  by (auto simp: relax_def Let_def split: option.splits)

lemma fold_relax_decreases:
  "T v = Some (d, p) \<Longrightarrow> \<exists>d' p'. fold (relax G u du pu) ws T v = Some (d', p') \<and> d' \<le> d"
proof (induction ws arbitrary: T d p)
  case Nil
  then show ?case by simp
next
  case (Cons w ws)
  from relax_decreases [where T = T and v = v, OF Cons.prems, of G u du pu w]
  obtain d1 p1 where r: "relax G u du pu w T v = Some (d1, p1)" "d1 \<le> d"
    by blast
  from Cons.IH [where T = "relax G u du pu w T", OF r(1)]
  obtain d' p' where "fold (relax G u du pu) ws (relax G u du pu w T) v = Some (d', p')" "d' \<le> d1"
    by blast
  then show ?case
    using r(2) by auto
qed

lemma relax_reaches:
  "\<exists>d' p'. relax G u du pu v T v = Some (d', p') \<and> d' \<le> du + distance G u v"
  by (auto simp: relax_def Let_def split: option.splits)

lemma fold_relax_reaches:
  "v \<in> set ws \<Longrightarrow>
     \<exists>d' p'. fold (relax G u du pu) ws T v = Some (d', p') \<and> d' \<le> du + distance G u v"
proof (induction ws arbitrary: T)
  case Nil
  then show ?case by simp
next
  case (Cons w ws)
  show ?case
  proof (cases "v = w")
    case True
    from relax_reaches [of G u du pu v T]
    obtain d1 p1 where r: "relax G u du pu v T v = Some (d1, p1)" "d1 \<le> du + distance G u v"
      by blast
    from fold_relax_decreases [where T = "relax G u du pu v T" and v = v, OF r(1), of G u du pu ws]
    show ?thesis
      using r(2) True by fastforce
  next
    case False
    then show ?thesis
      using Cons by simp
  qed
qed

subsection \<open>The invariant of the search\<close>

lemma dijkstra_inv_init:
  assumes "s \<in> set (point_ids G)"
  shows "dijkstra_inv G s [s \<mapsto> (0, [s])] (point_ids G)"
  using assms path_between_single [OF assms]
  by (auto simp: dijkstra_inv_def split: if_splits)

lemma picked_is_least:
  assumes inv: "dijkstra_inv G s T U"
    and pick: "pick T U = Some u" and Tu: "T u = Some (du, pu)"
    and q: "path_between G s q u"
  shows "du \<le> path_length G q"
proof (cases "s \<in> set U")
  case True
  then have "u = s"
    using inv Tu by (auto simp: dijkstra_inv_def)
  then have "du = 0"
    using inv Tu by (simp add: dijkstra_inv_def)
  then show ?thesis
    using path_length_nonneg [of G q] by simp
next
  case False
  have uU: "u \<in> set U"
    using pick by (rule pick_member)
  have "is_path G q" "hd q \<notin> set U" "last q \<in> set U"
    using q False uU by (simp_all add: path_between_def)
  from path_crossing [OF this]
  obtain q1 x y where c: "x \<notin> set U" "y \<in> set U" "path_between G (hd q) q1 x"
    "y \<in> set (adjacent G x)" "y \<in> set (point_ids G)"
    "path_length G q1 + distance G x y \<le> path_length G q"
    by blast
  have q1: "path_between G s q1 x"
    using c(3) q by (simp add: path_between_def)
  have "x \<in> set (point_ids G)"
    using path_between_ends [OF q1] by simp
  then obtain dx px where Tx: "T x = Some (dx, px)"
    using inv c(1) by (fastforce simp: dijkstra_inv_def)
  have dx: "dx \<le> path_length G q1"
    using inv Tx c(1) q1 unfolding dijkstra_inv_def by blast
  obtain dy py where Ty: "T y = Some (dy, py)" "dy \<le> dx + distance G x y"
    using inv c(1,4,5) Tx unfolding dijkstra_inv_def by blast
  have "du \<le> dy"
    using pick_least [OF pick Tu c(2) Ty(1)] .
  then show ?thesis
    using Ty(2) dx c(6) by linarith
qed

lemma dijkstra_inv_step:
  assumes inv: "dijkstra_inv G s T U"
    and pick: "pick T U = Some u" and Tu: "T u = Some (du, pu)"
    and U': "U' = removeAll u U"
    and T': "T' = fold (relax G u du pu) (filter (\<lambda>v. v \<in> set U') (adjacent G u)) T"
  shows "dijkstra_inv G s T' U'"
proof -
  let ?ws = "filter (\<lambda>v. v \<in> set U') (adjacent G u)"
  have uU: "u \<in> set U"
    using pick by (rule pick_member)
  have setU': "set U' = set U - {u}"
    using U' by auto
  have ws: "set ?ws = set (adjacent G u) \<inter> set U'"
    by auto
  have subU: "set U \<subseteq> set (point_ids G)"
    using inv by (simp add: dijkstra_inv_def)
  have Ts: "T s = Some (0, [s])"
    using inv by (simp add: dijkstra_inv_def)
  have only_s: "s \<in> set U \<Longrightarrow> u = s"
    using inv Tu by (auto simp: dijkstra_inv_def)
  have paths: "\<And>v d p. T v = Some (d, p) \<Longrightarrow> path_between G s p v \<and> path_length G p = d"
    using inv unfolding dijkstra_inv_def by blast
  have final: "\<And>v d p q. T v = Some (d, p) \<Longrightarrow> v \<notin> set U \<Longrightarrow> path_between G s q v
                 \<Longrightarrow> d \<le> path_length G q"
    using inv unfolding dijkstra_inv_def by blast
  have relaxed: "\<And>w dw pw v. w \<notin> set U \<Longrightarrow> T w = Some (dw, pw) \<Longrightarrow> v \<in> set (adjacent G w)
                 \<Longrightarrow> v \<in> set (point_ids G)
                 \<Longrightarrow> \<exists>dv pv. T v = Some (dv, pv) \<and> dv \<le> dw + distance G w v"
    using inv unfolding dijkstra_inv_def by blast
  have entries: "\<And>v. v \<in> set (point_ids G) \<Longrightarrow> v \<notin> set U \<Longrightarrow> T v \<noteq> None"
    using inv unfolding dijkstra_inv_def by blast
  have keep: "\<And>v. v \<notin> set U' \<Longrightarrow> T' v = T v"
    unfolding T' using ws by (simp add: fold_relax_other)
  have pu: "path_between G s pu u" "path_length G pu = du"
    using paths [OF Tu] by simp_all
  have u_least: "\<And>q. path_between G s q u \<Longrightarrow> du \<le> path_length G q"
    using picked_is_least [OF inv pick Tu] .

  have c1: "T' s = Some (0, [s])"
  proof -
    have "s \<notin> set U'"
      using only_s setU' by auto
    then show ?thesis using keep Ts by simp
  qed
  have c2: "set U' \<subseteq> set (point_ids G)"
    using subU setU' by auto
  have c3: "s \<in> set U' \<longrightarrow> (\<forall>v. T' v \<noteq> None \<longrightarrow> v = s)"
    using only_s setU' by auto
  have c4: "\<forall>v d p. T' v = Some (d, p) \<longrightarrow> path_between G s p v \<and> path_length G p = d"
  proof (intro allI impI)
    fix v d p assume e: "T' v = Some (d, p)"
    from fold_relax_origin [OF e [unfolded T']]
    consider "T v = Some (d, p)" | "v \<in> set ?ws" "d = du + distance G u v" "p = pu @ [v]"
      by blast
    then show "path_between G s p v \<and> path_length G p = d"
    proof cases
      case 1
      then show ?thesis using paths by simp
    next
      case 2
      have "v \<in> set (adjacent G u)" "v \<in> set (point_ids G)"
        using 2(1) c2 by auto
      from path_between_snoc [OF pu(1) this] 2(2,3) pu(2)
      show ?thesis by simp
    qed
  qed
  have c5: "\<forall>v d p. T' v = Some (d, p) \<longrightarrow> v \<notin> set U' \<longrightarrow>
              (\<forall>q. path_between G s q v \<longrightarrow> d \<le> path_length G q)"
  proof (intro allI impI)
    fix v d p q
    assume e: "T' v = Some (d, p)" and v: "v \<notin> set U'" and q: "path_between G s q v"
    have Tv: "T v = Some (d, p)"
      using keep [OF v] e by simp
    show "d \<le> path_length G q"
    proof (cases "v = u")
      case True
      then show ?thesis using Tv Tu u_least q by simp
    next
      case False
      then have "v \<notin> set U" using v setU' by simp
      then show ?thesis using final Tv q by blast
    qed
  qed
  have c6: "\<forall>w dw pw v. w \<notin> set U' \<longrightarrow> T' w = Some (dw, pw) \<longrightarrow> v \<in> set (adjacent G w) \<longrightarrow>
              v \<in> set (point_ids G) \<longrightarrow>
              (\<exists>dv pv. T' v = Some (dv, pv) \<and> dv \<le> dw + distance G w v)"
  proof (intro allI impI)
    fix w dw pw v
    assume w: "w \<notin> set U'" and e: "T' w = Some (dw, pw)"
      and adj: "v \<in> set (adjacent G w)" and vp: "v \<in> set (point_ids G)"
    have Tw: "T w = Some (dw, pw)"
      using keep [OF w] e by simp
    show "\<exists>dv pv. T' v = Some (dv, pv) \<and> dv \<le> dw + distance G w v"
    proof (cases "w = u")
      case False
      then have "w \<notin> set U" using w setU' by simp
      from relaxed [OF this Tw adj vp]
      obtain dv pv where Tv: "T v = Some (dv, pv)" "dv \<le> dw + distance G w v"
        by blast
      from fold_relax_decreases [where T = T and v = v, OF Tv(1), of G u du pu ?ws]
      show ?thesis
        unfolding T' using Tv(2) by fastforce
    next
      case True
      then have dw: "dw = du" "pw = pu"
        using Tw Tu by simp_all
      show ?thesis
      proof (cases "v \<in> set U'")
        case True
        then have "v \<in> set ?ws"
          using adj \<open>w = u\<close> by simp
        from fold_relax_reaches [OF this, of G u du pu T]
        show ?thesis
          unfolding T' using dw \<open>w = u\<close> by simp
      next
        case False
        have same: "T' v = T v"
          using keep [OF False] .
        show ?thesis
        proof (cases "v = u")
          case True
          then show ?thesis
            using same Tu dw \<open>w = u\<close> distance_nonneg [of G u u] by simp
        next
          case False
          then have vU: "v \<notin> set U"
            using \<open>v \<notin> set U'\<close> setU' by simp
          then obtain dv pv where Tv: "T v = Some (dv, pv)"
            using entries [OF vp] by fastforce
          have "path_between G s (pu @ [v]) v"
            "path_length G (pu @ [v]) = path_length G pu + distance G u v"
            using path_between_snoc [OF pu(1) _ vp] adj \<open>w = u\<close> by simp_all
          then have "dv \<le> du + distance G u v"
            using final [OF Tv vU] pu(2) by fastforce
          then show ?thesis
            using same Tv dw \<open>w = u\<close> by simp
        qed
      qed
    qed
  qed
  have c7: "\<forall>v \<in> set (point_ids G). v \<notin> set U' \<longrightarrow> T' v \<noteq> None"
  proof (intro ballI impI)
    fix v assume vp: "v \<in> set (point_ids G)" and v: "v \<notin> set U'"
    show "T' v \<noteq> None"
    proof (cases "v = u")
      case True
      then show ?thesis using keep [OF v] Tu by simp
    next
      case False
      then have "v \<notin> set U" using v setU' by simp
      then show ?thesis using keep [OF v] entries [OF vp] by simp
    qed
  qed
  show ?thesis
    unfolding dijkstra_inv_def
    using c1 c2 c3 c4 c5 c6 c7 by blast
qed

lemma dijkstra_final:
  "dijkstra_inv G s T U \<Longrightarrow>
     \<exists>U'. dijkstra_inv G s (dijkstra G T U) U' \<and> (\<forall>v \<in> set U'. dijkstra G T U v = None)"
proof (induction G T U rule: dijkstra.induct)
  case (1 G T unvisited)
  show ?case
  proof (cases "pick T unvisited")
    case None
    then have "dijkstra G T unvisited = T"
      by (simp add: dijkstra.simps)
    moreover have "\<forall>v \<in> set unvisited. T v = None"
      using None pick_None by metis
    ultimately show ?thesis
      using "1.prems" by auto
  next
    case (Some u)
    obtain du pu where Tu: "T u = Some (du, pu)"
      using pick_entry [OF Some] by (cases "T u") auto
    let ?rest = "removeAll u unvisited"
    let ?T' = "fold (relax G u du pu) (filter (\<lambda>v. v \<in> set ?rest) (adjacent G u)) T"
    have eq: "dijkstra G T unvisited = dijkstra G ?T' ?rest"
      using Some Tu by (subst dijkstra.simps) (simp add: Let_def)
    have "dijkstra_inv G s ?T' ?rest"
      using dijkstra_inv_step [OF "1.prems" Some Tu refl refl] .
    from "1.IH" [OF Some Tu refl refl this]
    show ?thesis
      unfolding eq by simp
  qed
qed

lemma dijkstra_visited:
  "v \<notin> set U \<Longrightarrow> dijkstra G T U v = T v"
proof (induction G T U rule: dijkstra.induct)
  case (1 G T unvisited)
  show ?case
  proof (cases "pick T unvisited")
    case None
    then show ?thesis by (simp add: dijkstra.simps)
  next
    case (Some u)
    show ?thesis
    proof (cases "T u")
      case None
      then show ?thesis using Some by (simp add: dijkstra.simps)
    next
      case (Some e)
      obtain du pu where e: "e = (du, pu)" by (cases e)
      let ?rest = "removeAll u unvisited"
      let ?T' = "fold (relax G u du pu) (filter (\<lambda>v. v \<in> set ?rest) (adjacent G u)) T"
      have eq: "dijkstra G T unvisited = dijkstra G ?T' ?rest"
        using \<open>pick T unvisited = Some u\<close> Some e by (subst dijkstra.simps) (simp add: Let_def)
      have v: "v \<notin> set ?rest"
        using "1.prems" by simp
      have "dijkstra G ?T' ?rest v = ?T' v"
        using "1.IH" [OF \<open>pick T unvisited = Some u\<close> Some [unfolded e] refl refl v] .
      moreover have "?T' v = T v"
        using v by (simp add: fold_relax_other)
      ultimately show ?thesis
        unfolding eq by simp
    qed
  qed
qed

lemma pick_only:
  assumes Ts: "T s = Some (d, p)" and only: "\<And>v. T v \<noteq> None \<Longrightarrow> v = s"
  shows "s \<in> set vs \<Longrightarrow> pick T vs = Some s"
proof (induction vs)
  case Nil
  then show ?case by simp
next
  case (Cons w ws)
  show ?case
  proof (cases "w = s")
    case True
    show ?thesis
    proof (cases "pick T ws")
      case None
      then show ?thesis
        using True Ts by simp
    next
      case (Some u)
      have "u = s"
        using pick_entry [OF Some] only by simp
      then show ?thesis
        using True Ts Some by simp
    qed
  next
    case False
    have "T w = None"
      using only [of w] False by blast
    moreover have "s \<in> set ws"
      using Cons.prems False by simp
    ultimately show ?thesis
      using Cons.IH by simp
  qed
qed

subsection \<open>The result of the search\<close>

text \<open>
  Claim C1: whenever \<open>b\<close> is reachable from \<open>a\<close> in the graph, \<open>shortestPath\<close> returns a
  path from \<open>a\<close> to \<open>b\<close> whose summed consecutive-edge Euclidean distances equal the
  reported total distance, and no path from \<open>a\<close> to \<open>b\<close> (simple or not) has a smaller
  total distance.
\<close>

theorem shortestPath_is_shortest:
  assumes reachable: "path_between G a q b"
  shows "\<exists>p d. shortestPath G a b = Inr (p, d)
           \<and> path_between G a p b
           \<and> path_length G p = d
           \<and> (\<forall>q'. path_between G a q' b \<longrightarrow> d \<le> path_length G q')"
proof -
  have ab: "a \<in> set (point_ids G)" "b \<in> set (point_ids G)"
    using path_between_ends [OF reachable] by simp_all
  let ?T = "dijkstra G [a \<mapsto> (0, [a])] (point_ids G)"
  from dijkstra_final [OF dijkstra_inv_init [OF ab(1)]]
  obtain U where inv: "dijkstra_inv G a ?T U" and unreached: "\<forall>v \<in> set U. ?T v = None"
    by blast
  have Ta: "?T a \<noteq> None"
    using inv by (simp add: dijkstra_inv_def)
  have aU: "a \<notin> set U"
    using Ta unreached by auto
  have bU: "b \<notin> set U"
  proof
    assume "b \<in> set U"
    then have "is_path G q" "hd q \<notin> set U" "last q \<in> set U"
      using reachable aU by (simp_all add: path_between_def)
    from path_crossing [OF this]
    obtain q1 x y where c: "x \<notin> set U" "y \<in> set U" "path_between G (hd q) q1 x"
      "y \<in> set (adjacent G x)" "y \<in> set (point_ids G)"
      by blast
    have "x \<in> set (point_ids G)"
      using path_between_ends [OF c(3)] by simp
    then obtain dx px where Tx: "?T x = Some (dx, px)"
      using inv c(1) by (fastforce simp: dijkstra_inv_def)
    have "\<exists>dy py. ?T y = Some (dy, py) \<and> dy \<le> dx + distance G x y"
      using inv c(1,4,5) Tx unfolding dijkstra_inv_def by blast
    then show False
      using unreached c(2) by auto
  qed
  obtain d p where Tb: "?T b = Some (d, p)"
    using inv bU ab(2) by (fastforce simp: dijkstra_inv_def)
  have "path_between G a p b" "path_length G p = d"
    using inv Tb unfolding dijkstra_inv_def by blast+
  moreover have "\<forall>q'. path_between G a q' b \<longrightarrow> d \<le> path_length G q'"
    using inv Tb bU unfolding dijkstra_inv_def by blast
  moreover have "shortestPath G a b = Inr (p, d)"
    using ab Tb by (simp add: shortestPath_def)
  ultimately show ?thesis by blast
qed

theorem shortestPath_is_shortest_witness:
  "path_between xy_floor ''X'' [''X'', ''Y''] ''Y''
   \<and> (\<exists>p d. shortestPath xy_floor ''X'' ''Y'' = Inr (p, d)
           \<and> path_between xy_floor ''X'' p ''Y''
           \<and> path_length xy_floor p = d
           \<and> (\<forall>q'. path_between xy_floor ''X'' q' ''Y'' \<longrightarrow> d \<le> path_length xy_floor q'))"
proof -
  have r: "path_between xy_floor ''X'' [''X'', ''Y''] ''Y''"
    by (simp add: path_between_def point_ids_def adjacent_def xy_floor_def)
  from shortestPath_is_shortest [OF r] r
  show ?thesis by blast
qed

text \<open>
  Claim C7: for every point \<open>a\<close> of the graph, \<open>shortestPath\<close> from \<open>a\<close> to \<open>a\<close> succeeds
  with the single-point path \<open>[a]\<close> and total distance 0.
\<close>

theorem shortestPath_same_point:
  assumes "a \<in> set (point_ids G)"
  shows "shortestPath G a a = Inr ([a], 0)"
proof -
  let ?T = "[a \<mapsto> (0 :: real, [a])]"
  let ?rest = "removeAll a (point_ids G)"
  let ?T' = "fold (relax G a 0 [a]) (filter (\<lambda>v. v \<in> set ?rest) (adjacent G a)) ?T"
  have "pick ?T (point_ids G) = Some a"
  proof (rule pick_only)
    show "?T a = Some (0, [a])"
      by simp
    show "\<And>v. ?T v \<noteq> None \<Longrightarrow> v = a"
      by (simp split: if_splits)
    show "a \<in> set (point_ids G)"
      by (rule assms)
  qed
  then have "dijkstra G ?T (point_ids G) = dijkstra G ?T' ?rest"
    by (subst dijkstra.simps) (simp add: Let_def)
  moreover have "dijkstra G ?T' ?rest a = ?T' a"
    by (rule dijkstra_visited) simp
  moreover have "?T' a = ?T a"
    by (rule fold_relax_other) simp
  ultimately have "dijkstra G ?T (point_ids G) a = Some (0, [a])"
    by simp
  then show ?thesis
    using assms by (simp add: shortestPath_def)
qed

theorem shortestPath_same_point_witness:
  "''X'' \<in> set (point_ids xy_floor)
   \<and> shortestPath xy_floor ''X'' ''X'' = Inr ([''X''], 0)"
proof -
  have m: "''X'' \<in> set (point_ids xy_floor)"
    by (simp add: point_ids_def xy_floor_def)
  from shortestPath_same_point [OF m] m
  show ?thesis by blast
qed

subsection \<open>The design document's single-floor scenario\<close>

text \<open>
  On the floor with X at (0, 0), Y at (3, 4) and the connection X to Y, the search returns
  the path \<open>[X, Y]\<close> with total distance 5.
\<close>

lemma xy_ids: "point_ids xy_floor = [''X'', ''Y'']"
  by (simp add: point_ids_def xy_floor_def)

lemma xy_adjacent: "adjacent xy_floor ''X'' = [''Y'']" "adjacent xy_floor ''Y'' = [''X'']"
  by (simp_all add: adjacent_def xy_floor_def)

lemma xy_distance: "distance xy_floor ''X'' ''Y'' = 5"
proof -
  have "sqrt 25 = (5 :: real)"
    by (rule real_sqrt_unique) simp_all
  then show ?thesis
    by (simp add: distance_def position_of_def xy_floor_def)
qed

lemma xy_shortest: "shortestPath xy_floor ''X'' ''Y'' = Inr ([''X'', ''Y''], 5)"
proof -
  let ?T0 = "[''X'' \<mapsto> (0 :: real, [''X''])]"
  let ?T1 = "?T0(''Y'' \<mapsto> (5 :: real, [''X'', ''Y'']))"
  have p0: "pick ?T0 [''X'', ''Y''] = Some ''X''"
    by simp
  have r0: "fold (relax xy_floor ''X'' 0 [''X''])
              (filter (\<lambda>v. v \<in> set (removeAll ''X'' [''X'', ''Y''])) (adjacent xy_floor ''X'')) ?T0
            = ?T1"
    by (simp add: xy_adjacent relax_def xy_distance)
  have s0: "dijkstra xy_floor ?T0 [''X'', ''Y''] = dijkstra xy_floor ?T1 [''Y'']"
    using p0 r0 by (subst dijkstra.simps) (simp add: Let_def)
  have "dijkstra xy_floor ?T1 [''Y''] ''Y'' = Some (5, [''X'', ''Y''])"
  proof -
    have p1: "pick ?T1 [''Y''] = Some ''Y''"
      by simp
    have s1: "dijkstra xy_floor ?T1 [''Y''] = dijkstra xy_floor ?T1 []"
      using p1 by (subst dijkstra.simps) (simp add: Let_def)
    have "dijkstra xy_floor ?T1 [] = ?T1"
      by (subst dijkstra.simps) simp
    then show ?thesis
      using s1 by simp
  qed
  then show ?thesis
    using s0 by (simp add: shortestPath_def xy_ids)
qed

subsection \<open>The Graph Model\<close>

text \<open>
  On a point of the graph \<open>neighbors\<close> succeeds with the connected points the search uses,
  and in a constructed Graph Model every connected point is a point of the graph.
\<close>

lemma neighbors_of_point:
  "u \<in> set (point_ids G) \<Longrightarrow> neighbors G u = Inr (adjacent G u)"
  by (simp add: neighbors_def)

lemma graph_model_connections:
  assumes "graph_model ps adj = Inr G" "v \<in> set (adjacent G u)"
  shows "v \<in> set (point_ids G)"
proof -
  have G: "G = \<lparr>points = ps, adjacency = adj\<rparr>"
    and ok: "list_all (\<lambda>(u, vs). u \<in> set (map point_id ps)
                                \<and> list_all (\<lambda>v. v \<in> set (map point_id ps)) vs) adj"
    using assms(1) by (auto simp: graph_model_def split: if_splits)
  have "\<exists>vs. map_of adj u = Some vs \<and> v \<in> set vs"
    using assms(2) unfolding G by (cases "map_of adj u") (simp_all add: adjacent_def)
  then obtain vs where vs: "map_of adj u = Some vs" "v \<in> set vs"
    by blast
  then have "(u, vs) \<in> set adj"
    by (simp add: map_of_SomeD)
  then have "list_all (\<lambda>v. v \<in> set (map point_id ps)) vs"
    using ok by (auto simp: list_all_iff)
  then show ?thesis
    using vs(2) unfolding G by (simp add: list_all_iff point_ids_def)
qed

lemma xy_floor_model:
  "graph_model (points xy_floor) (adjacency xy_floor) = Inr xy_floor"
  by (simp add: graph_model_def xy_floor_def)

section \<open>Properties of the navigation session\<close>

lemma session_inv_new: "session_inv r (newSession r)"
  by (simp add: session_inv_def newSession_def)

lemma call_inv:
  assumes "session_inv r s"
  shows "session_inv r (snd (call c s))"
proof (cases c)
  case StartPlayback
  then show ?thesis
    using assms by (auto simp: session_inv_def startPlayback_def)
next
  case AdvancePoint
  then show ?thesis
    using assms
    by (auto simp: session_inv_def advancePoint_def currentSegment_def isFinalSegment_def Let_def;
        metis Suc_lessI length_greater_0_conv)
next
  case AdvanceToNextSegment
  then show ?thesis
    using assms by (auto simp: session_inv_def advanceToNextSegment_def)
qed

lemma call_segmentIndex:
  assumes "session_inv r s"
  shows "segmentIndex (snd (call c s))
           = segmentIndex s
             + (if c = AdvanceToNextSegment \<and> state s = AWAITING_TRANSITION then 1 else 0)"
proof (cases c)
  case StartPlayback
  then show ?thesis
    using assms by (auto simp: session_inv_def startPlayback_def)
next
  case AdvancePoint
  then show ?thesis
    by (auto simp: advancePoint_def Let_def split: option.splits)
next
  case AdvanceToNextSegment
  then show ?thesis
    by (auto simp: advanceToNextSegment_def)
qed

lemma completed_count:
  "session_inv r s \<Longrightarrow> state (run cs s) = COMPLETED
     \<Longrightarrow> segmentIndex s + transitions cs s + 1 = length r"
proof (induction cs arbitrary: s)
  case Nil
  then show ?case by (simp add: session_inv_def)
next
  case (Cons c cs)
  have inv': "session_inv r (snd (call c s))"
    using Cons.prems(1) by (rule call_inv)
  have "state (run cs (snd (call c s))) = COMPLETED"
    using Cons.prems(2) by simp
  from Cons.IH [OF inv' this] call_segmentIndex [OF Cons.prems(1), of c]
  show ?case by simp
qed

lemma run_append: "run (cs @ ds) s = run ds (run cs s)"
  by (induction cs arbitrary: s) simp_all

lemma run_inv: "session_inv r s \<Longrightarrow> session_inv r (run cs s)"
  by (induction cs arbitrary: s) (simp_all add: call_inv)

lemma segment_end_reached:
  assumes "session_inv r s" "state s = ON_SEGMENT"
    and "n = length (pointIds (r ! segmentIndex s)) - pointIndex s"
  shows "\<exists>m. state (run (replicate m AdvancePoint) s) = COMPLETED
           \<or> (state (run (replicate m AdvancePoint) s) = AWAITING_TRANSITION
               \<and> segmentIndex (run (replicate m AdvancePoint) s) = segmentIndex s)"
  using assms
proof (induction n arbitrary: s rule: less_induct)
  case (less n)
  let ?s' = "snd (advancePoint s)"
  have seg: "currentSegment s = Some (r ! segmentIndex s)"
    using less.prems(1,2) by (simp add: session_inv_def currentSegment_def)
  show ?case
  proof (cases "state ?s' = ON_SEGMENT")
    case False
    have inv': "session_inv r ?s'"
      using call_inv [OF less.prems(1), of AdvancePoint] by simp
    have "state ?s' = COMPLETED \<or> (state ?s' = AWAITING_TRANSITION \<and> segmentIndex ?s' = segmentIndex s)"
      using False less.prems(2) seg
      by (auto simp: advancePoint_def Let_def split: if_splits)
    then have "state (run (replicate 1 AdvancePoint) s) = COMPLETED
           \<or> (state (run (replicate 1 AdvancePoint) s) = AWAITING_TRANSITION
               \<and> segmentIndex (run (replicate 1 AdvancePoint) s) = segmentIndex s)"
      by simp
    then show ?thesis by blast
  next
    case True
    have step: "pointIndex ?s' = pointIndex s + 1" "segmentIndex ?s' = segmentIndex s"
      "pointIndex s + 2 < length (pointIds (r ! segmentIndex s))"
      using True less.prems(2) seg
      by (auto simp: advancePoint_def Let_def split: if_splits)
    have inv': "session_inv r ?s'"
      using call_inv [OF less.prems(1), of AdvancePoint] by simp
    have "length (pointIds (r ! segmentIndex ?s')) - pointIndex ?s' < n"
      using step less.prems(3) by simp
    from less.IH [OF this inv' True refl]
    obtain m where m: "state (run (replicate m AdvancePoint) ?s') = COMPLETED
           \<or> (state (run (replicate m AdvancePoint) ?s') = AWAITING_TRANSITION
               \<and> segmentIndex (run (replicate m AdvancePoint) ?s') = segmentIndex ?s')"
      by blast
    have "run (replicate (Suc m) AdvancePoint) s = run (replicate m AdvancePoint) ?s'"
      by simp
    then show ?thesis
      using m step(2) by metis
  qed
qed

lemma completion_reachable_from_segment:
  assumes "session_inv r s" "state s = ON_SEGMENT" "k = length r - segmentIndex s"
  shows "\<exists>cs. state (run cs s) = COMPLETED"
  using assms
proof (induction k arbitrary: s rule: less_induct)
  case (less k)
  from segment_end_reached [OF less.prems(1,2) refl]
  obtain m where m: "state (run (replicate m AdvancePoint) s) = COMPLETED
           \<or> (state (run (replicate m AdvancePoint) s) = AWAITING_TRANSITION
               \<and> segmentIndex (run (replicate m AdvancePoint) s) = segmentIndex s)"
    by blast
  let ?t = "run (replicate m AdvancePoint) s"
  show ?case
  proof (cases "state ?t = COMPLETED")
    case True
    then show ?thesis by blast
  next
    case False
    then have t: "state ?t = AWAITING_TRANSITION" "segmentIndex ?t = segmentIndex s"
      using m by auto
    have invt: "session_inv r ?t"
      using less.prems(1) by (rule run_inv)
    let ?u = "snd (advanceToNextSegment ?t)"
    have invu: "session_inv r ?u"
      using call_inv [OF invt, of AdvanceToNextSegment] by simp
    have u: "state ?u = ON_SEGMENT" "segmentIndex ?u = segmentIndex s + 1"
      using t by (simp_all add: advanceToNextSegment_def)
    have "segmentIndex s + 1 < length r"
      using invt t by (simp add: session_inv_def)
    then have "length r - segmentIndex ?u < k"
      using u less.prems(3) by simp
    from less.IH [OF this invu u(1) refl]
    obtain cs where "state (run cs ?u) = COMPLETED"
      by blast
    then have "state (run (replicate m AdvancePoint @ AdvanceToNextSegment # cs) s) = COMPLETED"
      by (simp add: run_append)
    then show ?thesis by blast
  qed
qed

text \<open>
  Claim C6: on a Route of \<open>N\<close> segments, a run of a session that reaches \<open>COMPLETED\<close> has
  made exactly \<open>N - 1\<close> calls of \<open>advanceToNextSegment\<close> from \<open>AWAITING_TRANSITION\<close>, and
  such a run exists; and \<open>advanceToNextSegment\<close> called in any state other than
  \<open>AWAITING_TRANSITION\<close> (in \<open>ON_SEGMENT\<close> in particular) fails with \<open>InvalidTransition\<close> and
  leaves the session as it was.
\<close>

theorem session_completes_after_transitions:
  assumes "r \<noteq> []"
  shows "(state (run cs (newSession r)) = COMPLETED \<longrightarrow>
            transitions cs (newSession r) = length r - 1)
         \<and> (\<exists>cs'. state (run cs' (newSession r)) = COMPLETED
                   \<and> transitions cs' (newSession r) = length r - 1)
         \<and> (state s \<noteq> AWAITING_TRANSITION \<longrightarrow>
               advanceToNextSegment s = (Some InvalidTransition, s))"
proof (intro conjI impI)
  have count: "\<And>ds. state (run ds (newSession r)) = COMPLETED \<Longrightarrow>
                 transitions ds (newSession r) = length r - 1"
    using completed_count [OF session_inv_new] by (fastforce simp: newSession_def)
  show "transitions cs (newSession r) = length r - 1"
    if "state (run cs (newSession r)) = COMPLETED"
    using that by (rule count)
  let ?s1 = "snd (startPlayback (newSession r))"
  have inv1: "session_inv r ?s1"
    using call_inv [OF session_inv_new, where c = StartPlayback and r = r] by simp
  have on: "state ?s1 = ON_SEGMENT"
    using assms by (simp add: startPlayback_def newSession_def)
  from completion_reachable_from_segment [OF inv1 on refl]
  obtain ds where "state (run ds ?s1) = COMPLETED"
    by blast
  then have fin: "state (run (StartPlayback # ds) (newSession r)) = COMPLETED"
    by simp
  show "\<exists>cs'. state (run cs' (newSession r)) = COMPLETED
              \<and> transitions cs' (newSession r) = length r - 1"
    using fin count [OF fin] by blast
  show "advanceToNextSegment s = (Some InvalidTransition, s)"
    if "state s \<noteq> AWAITING_TRANSITION"
    using that by (simp add: advanceToNextSegment_def)
qed

theorem session_completes_after_transitions_witness:
  "two_floor_route \<noteq> []
   \<and> state (run [StartPlayback, AdvancePoint, AdvanceToNextSegment, AdvancePoint]
              (newSession two_floor_route)) = COMPLETED
   \<and> transitions [StartPlayback, AdvancePoint, AdvanceToNextSegment, AdvancePoint]
         (newSession two_floor_route) = length two_floor_route - 1
   \<and> state (snd (startPlayback (newSession two_floor_route))) \<noteq> AWAITING_TRANSITION
   \<and> advanceToNextSegment (snd (startPlayback (newSession two_floor_route)))
       = (Some InvalidTransition, snd (startPlayback (newSession two_floor_route)))"
proof -
  have ne: "two_floor_route \<noteq> []"
    by (simp add: two_floor_route_def)
  have c: "state (run [StartPlayback, AdvancePoint, AdvanceToNextSegment, AdvancePoint]
              (newSession two_floor_route)) = COMPLETED"
    by (simp add: two_floor_route_def newSession_def startPlayback_def advancePoint_def
          advanceToNextSegment_def currentSegment_def isFinalSegment_def Let_def)
  have n: "state (snd (startPlayback (newSession two_floor_route))) \<noteq> AWAITING_TRANSITION"
    by (simp add: two_floor_route_def newSession_def startPlayback_def)
  from session_completes_after_transitions [OF ne,
      of "[StartPlayback, AdvancePoint, AdvanceToNextSegment, AdvancePoint]"
         "snd (startPlayback (newSession two_floor_route))"] ne c n
  show ?thesis by blast
qed

end
